theory Spec2Isabelle
  imports Main "HOL-Library.Sublist"
begin

section \<open>The project-file patcher \<^verbatim>\<open>fix_project.py\<close>\<close>

text \<open>
  The script reads the Xcode project file as text, leaves it alone when it already holds
  the first product-dependency identifier, and otherwise walks its lines twice: the first
  walk appends synthesized lines after marker lines, the second puts a new section before
  the project section. The result is written back to the same path.

  Text is a \<^typ>\<open>string\<close> as Python has it after decoding and newline translation; a line
  keeps its terminating newline, as \<^verbatim>\<open>readlines\<close> returns it.
\<close>

subsection \<open>Characters and Python's string operations\<close>

definition nl :: char where
  "nl = CHR 0x0A"

definition tab :: char where
  "tab = CHR 0x09"

definition dquote :: char where
  "dquote = CHR 0x22"

text \<open>\<^verbatim>\<open>sub in s\<close> on Python strings: \<open>sub\<close> occurs in \<open>s\<close> as a contiguous run.\<close>

fun contains :: "string \<Rightarrow> string \<Rightarrow> bool" where
  "contains sub [] = (sub = [])"
| "contains sub (c # s) = (prefix sub (c # s) \<or> contains sub s)"

text \<open>
  \<^verbatim>\<open>f.readlines()\<close>: the text cut after every newline, each line keeping its newline; only
  the last line can lack one.
\<close>

fun readlines :: "string \<Rightarrow> string list" where
  "readlines [] = []"
| "readlines (c # s) =
     (if c = nl then [c] # readlines s
      else (case readlines s of [] \<Rightarrow> [[c]] | l # ls \<Rightarrow> (c # l) # ls))"

text \<open>The number of positions of \<open>s\<close> at which \<open>sub\<close> starts.\<close>

fun count_occ :: "string \<Rightarrow> string \<Rightarrow> nat" where
  "count_occ sub [] = (if sub = [] then 1 else 0)"
| "count_occ sub (c # s) = (if prefix sub (c # s) then 1 else 0) + count_occ sub s"

subsection \<open>The constants of the script\<close>

definition path :: string where
  "path = ''iMessageWrapped.xcodeproj/project.pbxproj''"

definition frameworks_phase_id :: string where
  "frameworks_phase_id = ''A1000020282A0001''"

definition native_target_id :: string where
  "native_target_id = ''A1000040282A0001''"

definition mlx_pkg_id :: string where
  "mlx_pkg_id = ''96B796092F00EDE300F7DF93''"

definition mlx_lm_pkg_id :: string where
  "mlx_lm_pkg_id = ''96B7960A2F00EFF500F7DF93''"

definition mlx_dep_id :: string where
  "mlx_dep_id = ''96B7960B2F00F00100F7DF93''"

definition mlx_llm_dep_id :: string where
  "mlx_llm_dep_id = ''96B7960C2F00F00200F7DF93''"

definition mlx_common_dep_id :: string where
  "mlx_common_dep_id = ''96B7960F2F00F00500F7DF93''"

definition mlx_build_id :: string where
  "mlx_build_id = ''96B7960D2F00F00300F7DF93''"

definition mlx_llm_build_id :: string where
  "mlx_llm_build_id = ''96B7960E2F00F00400F7DF93''"

definition mlx_common_build_id :: string where
  "mlx_common_build_id = ''96B796102F00F00600F7DF93''"

text \<open>The six literals the loops look for in a line.\<close>

definition build_file_marker :: string where
  "build_file_marker = ''/* Begin PBXBuildFile section */''"

definition frameworks_marker :: string where
  "frameworks_marker = frameworks_phase_id @ '' /* Frameworks */ = {''"

definition files_marker :: string where
  "files_marker = ''files = (''"

definition native_target_marker :: string where
  "native_target_marker = native_target_id @ '' /* iMessageWrapped */ = {''"

definition product_type_marker :: string where
  "product_type_marker = ''productType = ''"

definition project_marker :: string where
  "project_marker = ''/* Begin PBXProject section */''"

text \<open>The synthesized lines, in the order the script appends them.\<close>

definition build_file_lines :: "string list" where
  "build_file_lines =
    [[tab, tab] @ mlx_build_id @ '' /* MLX in Frameworks */ = {isa = PBXBuildFile; productRef = ''
       @ mlx_dep_id @ '' /* MLX */; };'' @ [nl],
     [tab, tab] @ mlx_llm_build_id @ '' /* MLXLLM in Frameworks */ = {isa = PBXBuildFile; productRef = ''
       @ mlx_llm_dep_id @ '' /* MLXLLM */; };'' @ [nl],
     [tab, tab] @ mlx_common_build_id @ '' /* MLXLMCommon in Frameworks */ = {isa = PBXBuildFile; productRef = ''
       @ mlx_common_dep_id @ '' /* MLXLMCommon */; };'' @ [nl]]"

definition frameworks_lines :: "string list" where
  "frameworks_lines =
    [[tab, tab, tab, tab] @ mlx_build_id @ '' /* MLX in Frameworks */,'' @ [nl],
     [tab, tab, tab, tab] @ mlx_llm_build_id @ '' /* MLXLLM in Frameworks */,'' @ [nl],
     [tab, tab, tab, tab] @ mlx_common_build_id @ '' /* MLXLMCommon in Frameworks */,'' @ [nl]]"

definition dependency_lines :: "string list" where
  "dependency_lines =
    [[tab, tab, tab] @ ''packageProductDependencies = ('' @ [nl],
     [tab, tab, tab, tab] @ mlx_dep_id @ '' /* MLX */,'' @ [nl],
     [tab, tab, tab, tab] @ mlx_llm_dep_id @ '' /* MLXLLM */,'' @ [nl],
     [tab, tab, tab, tab] @ mlx_common_dep_id @ '' /* MLXLMCommon */,'' @ [nl],
     [tab, tab, tab] @ '');'' @ [nl]]"

definition section_lines :: "string list" where
  "section_lines =
    [''/* Begin XCSwiftPackageProductDependency section */'' @ [nl],
     [tab, tab] @ mlx_dep_id @ '' /* MLX */ = {'' @ [nl],
     [tab, tab, tab] @ ''isa = XCSwiftPackageProductDependency;'' @ [nl],
     [tab, tab, tab] @ ''package = '' @ mlx_pkg_id @ '' /* XCRemoteSwiftPackageReference ''
       @ [dquote] @ ''mlx-swift'' @ [dquote] @ '' */;'' @ [nl],
     [tab, tab, tab] @ ''productName = MLX;'' @ [nl],
     [tab, tab] @ ''};'' @ [nl],
     [tab, tab] @ mlx_llm_dep_id @ '' /* MLXLLM */ = {'' @ [nl],
     [tab, tab, tab] @ ''isa = XCSwiftPackageProductDependency;'' @ [nl],
     [tab, tab, tab] @ ''package = '' @ mlx_lm_pkg_id @ '' /* XCRemoteSwiftPackageReference ''
       @ [dquote] @ ''mlx-swift-lm'' @ [dquote] @ '' */;'' @ [nl],
     [tab, tab, tab] @ ''productName = MLXLLM;'' @ [nl],
     [tab, tab] @ ''};'' @ [nl],
     [tab, tab] @ mlx_common_dep_id @ '' /* MLXLMCommon */ = {'' @ [nl],
     [tab, tab, tab] @ ''isa = XCSwiftPackageProductDependency;'' @ [nl],
     [tab, tab, tab] @ ''package = '' @ mlx_lm_pkg_id @ '' /* XCRemoteSwiftPackageReference ''
       @ [dquote] @ ''mlx-swift-lm'' @ [dquote] @ '' */;'' @ [nl],
     [tab, tab, tab] @ ''productName = MLXLMCommon;'' @ [nl],
     [tab, tab] @ ''};'' @ [nl],
     ''/* End XCSwiftPackageProductDependency section */'' @ [nl, nl]]"

subsection \<open>The first loop: insertion after marker lines\<close>

record scan_state =
  new_lines :: "string list"
  in_native_target :: bool
  in_frameworks_phase :: bool

definition init_state :: scan_state where
  "init_state = \<lparr>new_lines = [], in_native_target = False, in_frameworks_phase = False\<rparr>"

text \<open>The statements of the loop body, one definition each, in source order.\<close>

definition append_line :: "string \<Rightarrow> scan_state \<Rightarrow> scan_state" where
  "append_line line st = st\<lparr>new_lines := new_lines st @ [line]\<rparr>"

definition insert_build_files :: "string \<Rightarrow> scan_state \<Rightarrow> scan_state" where
  "insert_build_files line st =
     (if contains build_file_marker line
      then st\<lparr>new_lines := new_lines st @ build_file_lines\<rparr>
      else st)"

definition enter_frameworks_phase :: "string \<Rightarrow> scan_state \<Rightarrow> scan_state" where
  "enter_frameworks_phase line st =
     (if contains frameworks_marker line then st\<lparr>in_frameworks_phase := True\<rparr> else st)"

definition insert_frameworks_files :: "string \<Rightarrow> scan_state \<Rightarrow> scan_state" where
  "insert_frameworks_files line st =
     (if in_frameworks_phase st \<and> contains files_marker line
      then st\<lparr>new_lines := new_lines st @ frameworks_lines, in_frameworks_phase := False\<rparr>
      else st)"

definition enter_native_target :: "string \<Rightarrow> scan_state \<Rightarrow> scan_state" where
  "enter_native_target line st =
     (if contains native_target_marker line then st\<lparr>in_native_target := True\<rparr> else st)"

definition insert_dependencies :: "string \<Rightarrow> scan_state \<Rightarrow> scan_state" where
  "insert_dependencies line st =
     (if in_native_target st \<and> contains product_type_marker line
      then st\<lparr>new_lines := new_lines st @ dependency_lines, in_native_target := False\<rparr>
      else st)"

definition loop_body :: "scan_state \<Rightarrow> string \<Rightarrow> scan_state" where
  "loop_body st line =
     insert_dependencies line (enter_native_target line
       (insert_frameworks_files line (enter_frameworks_phase line
         (insert_build_files line (append_line line st)))))"

definition run_lines :: "scan_state \<Rightarrow> string list \<Rightarrow> scan_state" where
  "run_lines st lns = foldl loop_body st lns"

definition structural_pass :: "string list \<Rightarrow> string list" where
  "structural_pass lns = new_lines (run_lines init_state lns)"

subsection \<open>The second loop: the new section before the project section\<close>

record append_state =
  final_lines :: "string list"
  inserted_deps :: bool

definition section_body :: "append_state \<Rightarrow> string \<Rightarrow> append_state" where
  "section_body st line =
     (let st1 = (if contains project_marker line \<and> \<not> inserted_deps st
                 then st\<lparr>final_lines := final_lines st @ section_lines, inserted_deps := True\<rparr>
                 else st)
      in st1\<lparr>final_lines := final_lines st1 @ [line]\<rparr>)"

definition section_pass :: "string list \<Rightarrow> string list" where
  "section_pass lns =
     final_lines (foldl section_body \<lparr>final_lines = [], inserted_deps = False\<rparr> lns)"

definition patched_lines :: "string list \<Rightarrow> string list" where
  "patched_lines lns = section_pass (structural_pass lns)"

subsection \<open>The script\<close>

text \<open>
  What the script can see of its process: the files by path, the command line and the
  environment. A run ends with an uncaught error when the file cannot be opened, or with
  the files as they are afterwards, the writes it performed, the lines it printed and its
  exit code.
\<close>

record world =
  files :: "string \<rightharpoonup> string"
  argv :: "string list"
  environ :: "string \<rightharpoonup> string"

datatype error = FileNotFoundError

record outcome =
  files_after :: "string \<rightharpoonup> string"
  writes :: "(string \<times> string) list"
  stdout :: "string list"
  exit_code :: nat

definition main :: "world \<Rightarrow> error + outcome" where
  "main w =
     (case files w path of
        None \<Rightarrow> Inl FileNotFoundError
      | Some text \<Rightarrow>
          (let lns = readlines text;
               content = concat lns
           in if contains mlx_dep_id content
              then Inr \<lparr>files_after = files w, writes = [],
                        stdout = [''Project already patched.''], exit_code = 0\<rparr>
              else (let final = patched_lines lns
                    in Inr \<lparr>files_after = (files w)(path \<mapsto> concat final),
                             writes = [(path, concat final)],
                             stdout = [''Project patched successfully.''], exit_code = 0\<rparr>)))"

subsection \<open>Program points and marker positions\<close>

text \<open>
  The state in which the first loop starts its iteration on line \<open>i\<close>, and whether each
  of its three insertions runs in that iteration: the condition of the source's \<^verbatim>\<open>if\<close>,
  read in the state the statements before it have produced.
\<close>

definition state_before :: "string list \<Rightarrow> nat \<Rightarrow> scan_state" where
  "state_before lns i = run_lines init_state (take i lns)"

definition build_files_inserted_at :: "string list \<Rightarrow> nat \<Rightarrow> bool" where
  "build_files_inserted_at lns i \<longleftrightarrow>
     i < length lns \<and> contains build_file_marker (lns ! i)"

definition frameworks_files_inserted_at :: "string list \<Rightarrow> nat \<Rightarrow> bool" where
  "frameworks_files_inserted_at lns i \<longleftrightarrow>
     i < length lns \<and>
     in_frameworks_phase (enter_frameworks_phase (lns ! i)
       (insert_build_files (lns ! i) (append_line (lns ! i) (state_before lns i)))) \<and>
     contains files_marker (lns ! i)"

definition dependencies_inserted_at :: "string list \<Rightarrow> nat \<Rightarrow> bool" where
  "dependencies_inserted_at lns i \<longleftrightarrow>
     i < length lns \<and>
     in_native_target (enter_native_target (lns ! i)
       (insert_frameworks_files (lns ! i) (enter_frameworks_phase (lns ! i)
         (insert_build_files (lns ! i) (append_line (lns ! i) (state_before lns i)))))) \<and>
     contains product_type_marker (lns ! i)"

text \<open>The same for the second loop, on the lines it walks.\<close>

definition section_state_before :: "string list \<Rightarrow> nat \<Rightarrow> append_state" where
  "section_state_before lns k =
     foldl section_body \<lparr>final_lines = [], inserted_deps = False\<rparr> (take k lns)"

definition section_inserted_at :: "string list \<Rightarrow> nat \<Rightarrow> bool" where
  "section_inserted_at lns k \<longleftrightarrow>
     k < length lns \<and> contains project_marker (lns ! k) \<and>
     \<not> inserted_deps (section_state_before lns k)"

text \<open>
  The positions of the lines that hold a marker, and the first such position from \<open>j\<close>
  on.
\<close>

definition marker_lines :: "string \<Rightarrow> string list \<Rightarrow> nat list" where
  "marker_lines m lns = filter (\<lambda>i. contains m (lns ! i)) [0..<length lns]"

definition first_from :: "string \<Rightarrow> string list \<Rightarrow> nat \<Rightarrow> nat option" where
  "first_from m lns j = List.find (\<lambda>i. contains m (lns ! i)) [j..<length lns]"

text \<open>
  The lines the first loop appends in its iteration on line \<open>i\<close>, and the lines the
  script writes for line \<open>i\<close> once the second loop has run: the new section goes before
  the first line that holds the project marker.
\<close>

definition appended_at :: "string list \<Rightarrow> nat \<Rightarrow> string list" where
  "appended_at lns i = [lns ! i]
     @ (if build_files_inserted_at lns i then build_file_lines else [])
     @ (if frameworks_files_inserted_at lns i then frameworks_lines else [])
     @ (if dependencies_inserted_at lns i then dependency_lines else [])"

definition written_for :: "string list \<Rightarrow> nat \<Rightarrow> string list" where
  "written_for lns i =
     (if contains project_marker (lns ! i) \<and> (\<forall>k<i. \<not> contains project_marker (lns ! k))
      then section_lines else []) @ appended_at lns i"

text \<open>
  Where a marker stands in a document: \<open>plain_site\<close> says that the marker is on no line
  (\<open>None\<close>) or on line \<open>i\<close> and no other (\<open>Some i\<close>); \<open>armed_site\<close> says that the
  begin marker \<open>a\<close> is on no line or on one line with no line holding \<open>b\<close> from there on
  (\<open>None\<close>), or on exactly one line and \<open>i\<close> is the first line from there on that holds
  \<open>b\<close> (\<open>Some i\<close>).
\<close>

definition plain_site :: "string \<Rightarrow> string list \<Rightarrow> nat option \<Rightarrow> bool" where
  "plain_site m lns s \<longleftrightarrow> marker_lines m lns = (case s of None \<Rightarrow> [] | Some i \<Rightarrow> [i])"

definition armed_site :: "string \<Rightarrow> string \<Rightarrow> string list \<Rightarrow> nat option \<Rightarrow> bool" where
  "armed_site a b lns s \<longleftrightarrow>
     (case s of
        None \<Rightarrow> marker_lines a lns = [] \<or>
               (\<exists>j. marker_lines a lns = [j] \<and> first_from b lns j = None)
      | Some i \<Rightarrow> \<exists>j. marker_lines a lns = [j] \<and> first_from b lns j = Some i)"

subsection \<open>Example documents\<close>

text \<open>
  The smallest manifest with all marker lines, each once and in the order of a project
  file: the build-file section, the frameworks phase and its list, the native target and
  its product type, the project section.
\<close>

definition minimal_lines :: "string list" where
  "minimal_lines =
    [build_file_marker @ [nl],
     [tab, tab] @ frameworks_marker @ [nl],
     [tab, tab, tab] @ files_marker @ [nl],
     [tab, tab] @ native_target_marker @ [nl],
     [tab, tab, tab] @ product_type_marker @ ''app;'' @ [nl],
     project_marker @ [nl]]"

definition minimal_manifest :: string where
  "minimal_manifest = concat minimal_lines"

text \<open>The minimal manifest without its frameworks phase line.\<close>

definition no_frameworks_lines :: "string list" where
  "no_frameworks_lines =
    [build_file_marker @ [nl],
     [tab, tab, tab] @ files_marker @ [nl],
     [tab, tab] @ native_target_marker @ [nl],
     [tab, tab, tab] @ product_type_marker @ ''app;'' @ [nl],
     project_marker @ [nl]]"

definition no_frameworks_manifest :: string where
  "no_frameworks_manifest = concat no_frameworks_lines"

text \<open>Four lines of which the second and the fourth hold the project marker.\<close>

definition two_project_markers :: "string list" where
  "two_project_markers =
    [''objects = {'' @ [nl], project_marker @ [nl], [tab, tab] @ ''};'' @ [nl],
     project_marker @ [nl]]"

text \<open>
  A native target without a product type line, closed, and then another target with
  one.
\<close>

definition other_target_lines :: "string list" where
  "other_target_lines =
    [[tab, tab] @ native_target_marker @ [nl],
     [tab, tab, tab] @ ''isa = PBXNativeTarget;'' @ [nl],
     [tab, tab] @ ''};'' @ [nl],
     [tab, tab] @ ''B2000040282A0001 /* Helper */ = {'' @ [nl],
     [tab, tab, tab] @ product_type_marker @ ''tool;'' @ [nl],
     [tab, tab] @ ''};'' @ [nl]]"

text \<open>
  A manifest with the build-file section, the frameworks phase and the project section,
  in which the native target block has no product type line and a later target has one.
\<close>

definition stray_product_type_lines :: "string list" where
  "stray_product_type_lines =
    [build_file_marker @ [nl],
     [tab, tab] @ frameworks_marker @ [nl],
     [tab, tab, tab] @ files_marker @ [nl],
     [tab, tab, tab] @ '');'' @ [nl],
     [tab, tab] @ ''};'' @ [nl],
     [tab, tab] @ native_target_marker @ [nl],
     [tab, tab, tab] @ ''isa = PBXNativeTarget;'' @ [nl],
     [tab, tab] @ ''};'' @ [nl],
     [tab, tab] @ ''B2000040282A0001 /* Helper */ = {'' @ [nl],
     [tab, tab, tab] @ product_type_marker @ ''tool;'' @ [nl],
     [tab, tab] @ ''};'' @ [nl],
     project_marker @ [nl]]"

text \<open>The minimal manifest twice in a row: every marker line comes again.\<close>

definition repeated_lines :: "string list" where
  "repeated_lines = minimal_lines @ minimal_lines"

text \<open>A document with the frameworks phase and its list, and no other marker.\<close>

definition frameworks_only_manifest :: string where
  "frameworks_only_manifest =
     [tab, tab] @ frameworks_marker @ [nl] @ [tab, tab, tab] @ files_marker @ [nl]"

text \<open>A process that has the project file with the given content and nothing else.\<close>

definition world_of :: "string \<Rightarrow> world" where
  "world_of doc = \<lparr>files = [path \<mapsto> doc], argv = [], environ = Map.empty\<rparr>"

subsection \<open>Notions the claims use\<close>

text \<open>
  The native target block as the specification describes it: the lines from a line with
  the native target marker to the line that closes the brace opened there. The script
  has no such notion; it is defined here to compare the script with it.
\<close>

definition brace_delta :: "string \<Rightarrow> int" where
  "brace_delta l = int (count_list l (CHR ''{'')) - int (count_list l (CHR ''}''))"

fun block_length :: "int \<Rightarrow> string list \<Rightarrow> nat" where
  "block_length d [] = 0"
| "block_length d (l # ls) =
     (if d + brace_delta l \<le> 0 then 1 else 1 + block_length (d + brace_delta l) ls)"

definition in_native_target_block :: "string list \<Rightarrow> nat \<Rightarrow> bool" where
  "in_native_target_block lns i \<longleftrightarrow>
     list_ex (\<lambda>j. contains native_target_marker (lns ! j) \<and> i < j + block_length 0 (drop j lns))
       [0..<Suc i]"

text \<open>
  No occurrence of \<open>p\<close> can lie across the boundary of two neighbours in a list of lines
  when, at every boundary, the left line ends or the right line starts with a character
  that is not in \<open>p\<close>.
\<close>

fun seam_ok :: "string \<Rightarrow> string list \<Rightarrow> bool" where
  "seam_ok p [] = True"
| "seam_ok p (x # xs) =
     (x \<noteq> [] \<and>
      (case xs of [] \<Rightarrow> True | y # _ \<Rightarrow> last x \<notin> set p \<or> (y \<noteq> [] \<and> hd y \<notin> set p)) \<and>
      seam_ok p xs)"

section \<open>Facts about the two loops\<close>

lemma concat_readlines: "concat (readlines s) = s"
  by (induction s) (auto split: list.splits)

subsection \<open>Auxiliary facts\<close>

lemma contains_sublist: "contains sub s = sublist sub s"
  by (induction s) (auto simp: sublist_Cons_right)

lemma new_lines_loop_body:
  "new_lines (loop_body st l) = new_lines st @ [l]
     @ (if contains build_file_marker l then build_file_lines else [])
     @ (if (in_frameworks_phase st \<or> contains frameworks_marker l) \<and> contains files_marker l
        then frameworks_lines else [])
     @ (if (in_native_target st \<or> contains native_target_marker l) \<and> contains product_type_marker l
        then dependency_lines else [])"
  by (auto simp: loop_body_def append_line_def insert_build_files_def enter_frameworks_phase_def
      insert_frameworks_files_def enter_native_target_def insert_dependencies_def)

lemma in_frameworks_phase_loop_body:
  "in_frameworks_phase (loop_body st l) \<longleftrightarrow>
     (in_frameworks_phase st \<or> contains frameworks_marker l) \<and> \<not> contains files_marker l"
  by (auto simp: loop_body_def append_line_def insert_build_files_def enter_frameworks_phase_def
      insert_frameworks_files_def enter_native_target_def insert_dependencies_def)

lemma in_native_target_loop_body:
  "in_native_target (loop_body st l) \<longleftrightarrow>
     (in_native_target st \<or> contains native_target_marker l) \<and> \<not> contains product_type_marker l"
  by (auto simp: loop_body_def append_line_def insert_build_files_def enter_frameworks_phase_def
      insert_frameworks_files_def enter_native_target_def insert_dependencies_def)

lemma state_before_0: "state_before lns 0 = init_state"
  by (simp add: state_before_def run_lines_def)

lemma state_before_Suc:
  "i < length lns \<Longrightarrow> state_before lns (Suc i) = loop_body (state_before lns i) (lns ! i)"
  by (simp add: state_before_def run_lines_def take_Suc_conv_app_nth)

lemma state_before_length: "state_before lns (length lns) = run_lines init_state lns"
  by (simp add: state_before_def)

lemma frameworks_files_inserted_at_iff:
  "frameworks_files_inserted_at lns i \<longleftrightarrow>
     i < length lns \<and>
     (in_frameworks_phase (state_before lns i) \<or> contains frameworks_marker (lns ! i)) \<and>
     contains files_marker (lns ! i)"
  by (simp add: frameworks_files_inserted_at_def append_line_def insert_build_files_def
      enter_frameworks_phase_def)

lemma dependencies_inserted_at_iff:
  "dependencies_inserted_at lns i \<longleftrightarrow>
     i < length lns \<and>
     (in_native_target (state_before lns i) \<or> contains native_target_marker (lns ! i)) \<and>
     contains product_type_marker (lns ! i)"
  by (simp add: dependencies_inserted_at_def append_line_def insert_build_files_def
      enter_frameworks_phase_def insert_frameworks_files_def enter_native_target_def)

lemma new_lines_state_before:
  "n \<le> length lns \<Longrightarrow> new_lines (state_before lns n) = concat (map (appended_at lns) [0..<n])"
proof (induction n)
  case 0
  then show ?case by (simp add: state_before_0 init_state_def)
next
  case (Suc n)
  then have n: "n < length lns" by simp
  with Suc show ?case
    by (simp add: state_before_Suc new_lines_loop_body appended_at_def build_files_inserted_at_def
        frameworks_files_inserted_at_iff dependencies_inserted_at_iff)
qed

lemma structural_pass_appended:
  "structural_pass lns = concat (map (appended_at lns) [0..<length lns])"
  using new_lines_state_before [of "length lns" lns]
  by (simp add: structural_pass_def state_before_length)

lemma in_frameworks_phase_before:
  "i \<le> length lns \<Longrightarrow>
   in_frameworks_phase (state_before lns i) \<longleftrightarrow>
     (\<exists>j<i. contains frameworks_marker (lns ! j) \<and>
        (\<forall>k. j \<le> k \<and> k < i \<longrightarrow> \<not> contains files_marker (lns ! k)))"
proof (induction i)
  case 0
  then show ?case by (simp add: state_before_0 init_state_def)
next
  case (Suc i)
  then have i: "i < length lns" by simp
  show ?case
    unfolding state_before_Suc [OF i] in_frameworks_phase_loop_body
    using Suc.IH i
    by (auto simp: less_Suc_eq le_less)
qed

lemmas id_defs = mlx_pkg_id_def mlx_lm_pkg_id_def mlx_dep_id_def mlx_llm_dep_id_def
  mlx_common_dep_id_def mlx_build_id_def mlx_llm_build_id_def mlx_common_build_id_def
  frameworks_phase_id_def native_target_id_def

lemma no_project_marker_build:
  "x \<in> set build_file_lines \<Longrightarrow> \<not> contains project_marker x"
  by (auto simp: build_file_lines_def project_marker_def id_defs)

lemma no_project_marker_frameworks:
  "x \<in> set frameworks_lines \<Longrightarrow> \<not> contains project_marker x"
  by (auto simp: frameworks_lines_def project_marker_def id_defs)

lemma no_project_marker_dependency:
  "x \<in> set dependency_lines \<Longrightarrow> \<not> contains project_marker x"
  by (auto simp: dependency_lines_def project_marker_def id_defs)

lemma section_body_plain:
  "\<not> contains project_marker l \<or> inserted_deps st \<Longrightarrow>
   section_body st l = st\<lparr>final_lines := final_lines st @ [l]\<rparr>"
  by (auto simp: section_body_def)

lemma foldl_section_body_plain:
  "(\<forall>x\<in>set xs. \<not> contains project_marker x) \<or> inserted_deps st \<Longrightarrow>
   foldl section_body st xs = st\<lparr>final_lines := final_lines st @ xs\<rparr>"
proof (induction xs arbitrary: st)
  case Nil
  then show ?case by simp
next
  case (Cons x xs)
  have "section_body st x = st\<lparr>final_lines := final_lines st @ [x]\<rparr>"
    using Cons.prems by (intro section_body_plain) auto
  moreover have "(\<forall>y\<in>set xs. \<not> contains project_marker y) \<or>
      inserted_deps (st\<lparr>final_lines := final_lines st @ [x]\<rparr>)"
    using Cons.prems by auto
  ultimately show ?case using Cons.IH by simp
qed

lemma section_body_fresh:
  "contains project_marker l \<Longrightarrow> \<not> inserted_deps st \<Longrightarrow>
   section_body st l = \<lparr>final_lines = final_lines st @ section_lines @ [l], inserted_deps = True\<rparr>"
  by (simp add: section_body_def)




lemma inserted_deps_section_body:
  "inserted_deps (section_body st l) \<longleftrightarrow> inserted_deps st \<or> contains project_marker l"
  by (auto simp: section_body_def Let_def)

lemma section_state_before_Suc:
  "k < length lns \<Longrightarrow>
   section_state_before lns (Suc k) = section_body (section_state_before lns k) (lns ! k)"
  by (simp add: section_state_before_def take_Suc_conv_app_nth)

lemma inserted_deps_before:
  "k \<le> length lns \<Longrightarrow>
   inserted_deps (section_state_before lns k) \<longleftrightarrow> (\<exists>j<k. contains project_marker (lns ! j))"
proof (induction k)
  case 0
  then show ?case by (simp add: section_state_before_def)
next
  case (Suc k)
  then show ?case
    by (auto simp: section_state_before_Suc inserted_deps_section_body less_Suc_eq)
qed

lemma foldl_section_body_appended_at:
  "foldl section_body st (appended_at lns i) =
     \<lparr>final_lines = final_lines st @
        (if contains project_marker (lns ! i) \<and> \<not> inserted_deps st then section_lines else [])
        @ appended_at lns i,
      inserted_deps = (inserted_deps st \<or> contains project_marker (lns ! i))\<rparr>"
proof -
  define ins where "ins =
     (if build_files_inserted_at lns i then build_file_lines else [])
     @ (if frameworks_files_inserted_at lns i then frameworks_lines else [])
     @ (if dependencies_inserted_at lns i then dependency_lines else [])"
  have c: "appended_at lns i = lns ! i # ins"
    by (simp add: appended_at_def ins_def)
  have ins: "\<forall>x\<in>set ins. \<not> contains project_marker x"
    using no_project_marker_build no_project_marker_frameworks no_project_marker_dependency
    by (auto simp: ins_def)
  show ?thesis
    unfolding c using ins
    by (cases "contains project_marker (lns ! i) \<and> \<not> inserted_deps st")
      (auto simp: foldl_section_body_plain section_body_fresh section_body_plain)
qed

lemma foldl_section_body_all_appended:
  "n \<le> length lns \<Longrightarrow>
   foldl section_body \<lparr>final_lines = [], inserted_deps = False\<rparr>
       (concat (map (appended_at lns) [0..<n])) =
     \<lparr>final_lines = concat (map (written_for lns) [0..<n]),
      inserted_deps = (\<exists>k<n. contains project_marker (lns ! k))\<rparr>"
proof (induction n)
  case 0
  then show ?case by simp
next
  case (Suc n)
  then show ?case
    by (auto simp: foldl_section_body_appended_at written_for_def less_Suc_eq)
qed

lemma patched_lines_written:
  "patched_lines lns = concat (map (written_for lns) [0..<length lns])"
  by (simp add: patched_lines_def section_pass_def structural_pass_appended
      foldl_section_body_all_appended)

lemma marker_lines_single:
  assumes "marker_lines m lns = [i]"
  shows "i < length lns" and "contains m (lns ! i)"
    and "\<And>k. k < length lns \<Longrightarrow> contains m (lns ! k) \<Longrightarrow> k = i"
proof -
  have "set (marker_lines m lns) = {i}" using assms by simp
  then have s: "{k. k < length lns \<and> contains m (lns ! k)} = {i}"
    by (auto simp: marker_lines_def)
  then have "i \<in> {k. k < length lns \<and> contains m (lns ! k)}" by blast
  then show "i < length lns" and "contains m (lns ! i)" by simp_all
  fix k assume "k < length lns" "contains m (lns ! k)"
  then have "k \<in> {k. k < length lns \<and> contains m (lns ! k)}" by simp
  with s show "k = i" by blast
qed

lemma marker_lines_none:
  "marker_lines m lns = [] \<Longrightarrow> k < length lns \<Longrightarrow> \<not> contains m (lns ! k)"
  by (auto simp: marker_lines_def filter_empty_conv)

lemma first_from_Some_iff:
  "first_from m lns j = Some i \<longleftrightarrow>
     j \<le> i \<and> i < length lns \<and> contains m (lns ! i) \<and>
     (\<forall>k. j \<le> k \<and> k < i \<longrightarrow> \<not> contains m (lns ! k))"
proof
  assume "first_from m lns j = Some i"
  then obtain t where t: "t < length lns - j" "contains m (lns ! (j + t))" "i = j + t"
    "\<forall>s<t. \<not> contains m (lns ! (j + s))"
    unfolding first_from_def find_Some_iff by auto
  have "\<not> contains m (lns ! k)" if "j \<le> k" "k < i" for k
  proof -
    from that t(3) have "k - j < t" by simp
    with t(4) have "\<not> contains m (lns ! (j + (k - j)))" by blast
    with that show ?thesis by simp
  qed
  with t show "j \<le> i \<and> i < length lns \<and> contains m (lns ! i) \<and>
     (\<forall>k. j \<le> k \<and> k < i \<longrightarrow> \<not> contains m (lns ! k))" by auto
next
  assume r: "j \<le> i \<and> i < length lns \<and> contains m (lns ! i) \<and>
     (\<forall>k. j \<le> k \<and> k < i \<longrightarrow> \<not> contains m (lns ! k))"
  show "first_from m lns j = Some i"
    unfolding first_from_def find_Some_iff
    using r by (intro exI [of _ "i - j"]) auto
qed

lemma first_from_None_iff:
  "first_from m lns j = None \<longleftrightarrow>
     (\<forall>k. j \<le> k \<and> k < length lns \<longrightarrow> \<not> contains m (lns ! k))"
  by (auto simp: first_from_def find_None_iff)

lemma in_native_target_before:
  "i \<le> length lns \<Longrightarrow>
   in_native_target (state_before lns i) \<longleftrightarrow>
     (\<exists>j<i. contains native_target_marker (lns ! j) \<and>
        (\<forall>k. j \<le> k \<and> k < i \<longrightarrow> \<not> contains product_type_marker (lns ! k)))"
proof (induction i)
  case 0
  then show ?case by (simp add: state_before_0 init_state_def)
next
  case (Suc i)
  then have i: "i < length lns" by simp
  show ?case
    unfolding state_before_Suc [OF i] in_native_target_loop_body
    using Suc.IH i
    by (auto simp: less_Suc_eq le_less)
qed

lemma frameworks_files_inserted_at_markers:
  "frameworks_files_inserted_at lns i \<longleftrightarrow>
     i < length lns \<and> contains files_marker (lns ! i) \<and>
     (\<exists>j\<le>i. contains frameworks_marker (lns ! j) \<and>
        (\<forall>k. j \<le> k \<and> k < i \<longrightarrow> \<not> contains files_marker (lns ! k)))"
  (is "?l \<longleftrightarrow> ?r")
proof
  assume ?l
  then have i: "i < length lns" and
    d: "contains frameworks_marker (lns ! i) \<or> (\<exists>j<i. contains frameworks_marker (lns ! j) \<and>
        (\<forall>k. j \<le> k \<and> k < i \<longrightarrow> \<not> contains files_marker (lns ! k)))"
    and b: "contains files_marker (lns ! i)"
    using in_frameworks_phase_before [of i lns] unfolding frameworks_files_inserted_at_iff by auto
  from d show ?r
  proof
    assume "contains frameworks_marker (lns ! i)"
    with i b show ?r by (intro conjI exI [of _ i]) auto
  next
    assume "\<exists>j<i. contains frameworks_marker (lns ! j) \<and>
        (\<forall>k. j \<le> k \<and> k < i \<longrightarrow> \<not> contains files_marker (lns ! k))"
    then obtain j where "j < i" "contains frameworks_marker (lns ! j)"
      "\<forall>k. j \<le> k \<and> k < i \<longrightarrow> \<not> contains files_marker (lns ! k)" by blast
    with i b show ?r by (intro conjI exI [of _ j]) auto
  qed
next
  assume r: ?r
  then obtain j where j: "j \<le> i" "contains frameworks_marker (lns ! j)"
    "\<forall>k. j \<le> k \<and> k < i \<longrightarrow> \<not> contains files_marker (lns ! k)" by blast
  show ?l
  proof (cases "j = i")
    case True
    with r j show ?thesis by (simp add: frameworks_files_inserted_at_iff)
  next
    case False
    with j have "j < i" by simp
    with r j show ?thesis
      by (auto simp: frameworks_files_inserted_at_iff in_frameworks_phase_before)
  qed
qed

lemma dependencies_inserted_at_markers:
  "dependencies_inserted_at lns i \<longleftrightarrow>
     i < length lns \<and> contains product_type_marker (lns ! i) \<and>
     (\<exists>j\<le>i. contains native_target_marker (lns ! j) \<and>
        (\<forall>k. j \<le> k \<and> k < i \<longrightarrow> \<not> contains product_type_marker (lns ! k)))"
  (is "?l \<longleftrightarrow> ?r")
proof
  assume ?l
  then have i: "i < length lns" and
    d: "contains native_target_marker (lns ! i) \<or> (\<exists>j<i. contains native_target_marker (lns ! j) \<and>
        (\<forall>k. j \<le> k \<and> k < i \<longrightarrow> \<not> contains product_type_marker (lns ! k)))"
    and b: "contains product_type_marker (lns ! i)"
    using in_native_target_before [of i lns] unfolding dependencies_inserted_at_iff by auto
  from d show ?r
  proof
    assume "contains native_target_marker (lns ! i)"
    with i b show ?r by (intro conjI exI [of _ i]) auto
  next
    assume "\<exists>j<i. contains native_target_marker (lns ! j) \<and>
        (\<forall>k. j \<le> k \<and> k < i \<longrightarrow> \<not> contains product_type_marker (lns ! k))"
    then obtain j where "j < i" "contains native_target_marker (lns ! j)"
      "\<forall>k. j \<le> k \<and> k < i \<longrightarrow> \<not> contains product_type_marker (lns ! k)" by blast
    with i b show ?r by (intro conjI exI [of _ j]) auto
  qed
next
  assume r: ?r
  then obtain j where j: "j \<le> i" "contains native_target_marker (lns ! j)"
    "\<forall>k. j \<le> k \<and> k < i \<longrightarrow> \<not> contains product_type_marker (lns ! k)" by blast
  show ?l
  proof (cases "j = i")
    case True
    with r j show ?thesis by (simp add: dependencies_inserted_at_iff)
  next
    case False
    with j have "j < i" by simp
    with r j show ?thesis
      by (auto simp: dependencies_inserted_at_iff in_native_target_before)
  qed
qed

lemma main_patched:
  assumes "files w path = Some doc" and "\<not> contains mlx_dep_id doc"
  shows "main w = Inr \<lparr>files_after = (files w)(path \<mapsto> concat (patched_lines (readlines doc))),
                          writes = [(path, concat (patched_lines (readlines doc)))],
                          stdout = [''Project patched successfully.''], exit_code = 0\<rparr>"
  using assms by (simp add: main_def concat_readlines Let_def)

lemma plain_site_iff:
  assumes "plain_site m lns s" and "i < length lns"
  shows "contains m (lns ! i) \<longleftrightarrow> s = Some i"
proof (cases s)
  case None
  with assms(1) have "marker_lines m lns = []" by (simp add: plain_site_def)
  from marker_lines_none [OF this assms(2)] None show ?thesis by simp
next
  case (Some a)
  with assms(1) have "marker_lines m lns = [a]" by (simp add: plain_site_def)
  note m = marker_lines_single [OF this]
  show ?thesis
  proof
    assume "contains m (lns ! i)"
    from m(3) [OF assms(2) this] Some show "s = Some i" by simp
  next
    assume "s = Some i"
    with Some have "a = i" by simp
    with m(2) show "contains m (lns ! i)" by simp
  qed
qed

lemma first_marker_iff:
  assumes "plain_site m lns s" and "i < length lns"
  shows "contains m (lns ! i) \<and> (\<forall>k<i. \<not> contains m (lns ! k)) \<longleftrightarrow> s = Some i"
proof -
  have "\<not> contains m (lns ! k)" if "s = Some i" "k < i" for k
  proof
    assume "contains m (lns ! k)"
    moreover have "k < length lns" using that assms(2) by simp
    ultimately have "s = Some k" using plain_site_iff [OF assms(1)] by simp
    with that show False by simp
  qed
  then show ?thesis using plain_site_iff [OF assms] by auto
qed

lemma latch_fires_once:
  fixes n j i2 :: nat
  assumes only: "\<And>k. k < n \<Longrightarrow> A k \<Longrightarrow> k = j"
    and j: "j < n" "A j"
    and first: "j \<le> i2" "i2 < n" "B i2" "\<And>k. j \<le> k \<Longrightarrow> k < i2 \<Longrightarrow> \<not> B k"
  shows "(i < n \<and> B i \<and> (\<exists>j'\<le>i. A j' \<and> (\<forall>k. j' \<le> k \<and> k < i \<longrightarrow> \<not> B k))) \<longleftrightarrow> i = i2"
proof
  assume l: "i < n \<and> B i \<and> (\<exists>j'\<le>i. A j' \<and> (\<forall>k. j' \<le> k \<and> k < i \<longrightarrow> \<not> B k))"
  then obtain j' where j': "j' \<le> i" "A j'" "\<forall>k. j' \<le> k \<and> k < i \<longrightarrow> \<not> B k" by blast
  from l have i: "i < n" "B i" by simp_all
  have "j' = j" using only [of j'] j' i by simp
  with j' have ji: "j \<le> i" and none: "\<forall>k. j \<le> k \<and> k < i \<longrightarrow> \<not> B k" by simp_all
  show "i = i2"
  proof (rule ccontr)
    assume "i \<noteq> i2"
    then consider "i < i2" | "i2 < i" by linarith
    then show False
    proof cases
      case 1
      with first(4) [of i] ji i show False by simp
    next
      case 2
      with none first show False by simp
    qed
  qed
next
  assume e: "i = i2"
  have "j \<le> i \<and> A j \<and> (\<forall>k. j \<le> k \<and> k < i \<longrightarrow> \<not> B k)"
    using j first e by simp
  then have "\<exists>j'\<le>i. A j' \<and> (\<forall>k. j' \<le> k \<and> k < i \<longrightarrow> \<not> B k)"
    by (rule exI [of _ j])
  with e first show
    "i < n \<and> B i \<and> (\<exists>j'\<le>i. A j' \<and> (\<forall>k. j' \<le> k \<and> k < i \<longrightarrow> \<not> B k))"
    by simp
qed

lemma frameworks_site_iff:
  assumes "armed_site frameworks_marker files_marker lns s" and "i < length lns"
  shows "frameworks_files_inserted_at lns i \<longleftrightarrow> s = Some i"
proof (cases s)
  case None
  with assms(1) consider (absent) "marker_lines frameworks_marker lns = []"
    | (unfollowed) j where "marker_lines frameworks_marker lns = [j]" "first_from files_marker lns j = None"
    by (auto simp: armed_site_def)
  then have "\<not> frameworks_files_inserted_at lns i"
  proof cases
    case absent
    then have "\<not> contains frameworks_marker (lns ! j)" if "j \<le> i" for j
      using that assms(2) by (intro marker_lines_none) simp_all
    then show ?thesis by (auto simp: frameworks_files_inserted_at_markers)
  next
    case unfollowed
    note m = marker_lines_single [OF unfollowed(1)]
    show ?thesis
    proof
      assume "frameworks_files_inserted_at lns i"
      then obtain j' where j': "j' \<le> i" "contains frameworks_marker (lns ! j')"
        and b: "contains files_marker (lns ! i)"
        unfolding frameworks_files_inserted_at_markers by blast
      from j' assms(2) have "j' = j" by (intro m(3)) simp_all
      with j' have "j \<le> i" by simp
      with unfollowed(2) assms(2) have "\<not> contains files_marker (lns ! i)"
        by (simp add: first_from_None_iff)
      with b show False by simp
    qed
  qed
  with None show ?thesis by simp
next
  case (Some i2)
  with assms obtain j where j: "marker_lines frameworks_marker lns = [j]"
    and f: "first_from files_marker lns j = Some i2"
    by (auto simp: armed_site_def)
  note m = marker_lines_single [OF j]
  from f have f': "j \<le> i2" "i2 < length lns" "contains files_marker (lns ! i2)"
    "\<And>k. j \<le> k \<Longrightarrow> k < i2 \<Longrightarrow> \<not> contains files_marker (lns ! k)"
    by (simp_all add: first_from_Some_iff)
  have "frameworks_files_inserted_at lns i \<longleftrightarrow> i = i2"
    unfolding frameworks_files_inserted_at_markers
    using latch_fires_once [where A = "\<lambda>k. contains frameworks_marker (lns ! k)"
        and B = "\<lambda>k. contains files_marker (lns ! k)" and n = "length lns" and j = j
        and ?i2.0 = i2 and i = i, OF m(3) m(1) m(2) f']
    by simp
  with Some show ?thesis by auto
qed

lemma dependencies_site_iff:
  assumes "armed_site native_target_marker product_type_marker lns s" and "i < length lns"
  shows "dependencies_inserted_at lns i \<longleftrightarrow> s = Some i"
proof (cases s)
  case None
  with assms(1) consider (absent) "marker_lines native_target_marker lns = []"
    | (unfollowed) j where "marker_lines native_target_marker lns = [j]" "first_from product_type_marker lns j = None"
    by (auto simp: armed_site_def)
  then have "\<not> dependencies_inserted_at lns i"
  proof cases
    case absent
    then have "\<not> contains native_target_marker (lns ! j)" if "j \<le> i" for j
      using that assms(2) by (intro marker_lines_none) simp_all
    then show ?thesis by (auto simp: dependencies_inserted_at_markers)
  next
    case unfollowed
    note m = marker_lines_single [OF unfollowed(1)]
    show ?thesis
    proof
      assume "dependencies_inserted_at lns i"
      then obtain j' where j': "j' \<le> i" "contains native_target_marker (lns ! j')"
        and b: "contains product_type_marker (lns ! i)"
        unfolding dependencies_inserted_at_markers by blast
      from j' assms(2) have "j' = j" by (intro m(3)) simp_all
      with j' have "j \<le> i" by simp
      with unfollowed(2) assms(2) have "\<not> contains product_type_marker (lns ! i)"
        by (simp add: first_from_None_iff)
      with b show False by simp
    qed
  qed
  with None show ?thesis by simp
next
  case (Some i2)
  with assms obtain j where j: "marker_lines native_target_marker lns = [j]"
    and f: "first_from product_type_marker lns j = Some i2"
    by (auto simp: armed_site_def)
  note m = marker_lines_single [OF j]
  from f have f': "j \<le> i2" "i2 < length lns" "contains product_type_marker (lns ! i2)"
    "\<And>k. j \<le> k \<Longrightarrow> k < i2 \<Longrightarrow> \<not> contains product_type_marker (lns ! k)"
    by (simp_all add: first_from_Some_iff)
  have "dependencies_inserted_at lns i \<longleftrightarrow> i = i2"
    unfolding dependencies_inserted_at_markers
    using latch_fires_once [where A = "\<lambda>k. contains native_target_marker (lns ! k)"
        and B = "\<lambda>k. contains product_type_marker (lns ! k)" and n = "length lns" and j = j
        and ?i2.0 = i2 and i = i, OF m(3) m(1) m(2) f']
    by simp
  with Some show ?thesis by auto
qed

lemma patched_lines_sites:
  assumes "plain_site build_file_marker lns s1"
    and "armed_site frameworks_marker files_marker lns s2"
    and "armed_site native_target_marker product_type_marker lns s3"
    and "plain_site project_marker lns s4"
  shows "patched_lines lns =
     concat (map (\<lambda>i. (if s4 = Some i then section_lines else [])
                     @ [lns ! i]
                     @ (if s1 = Some i then build_file_lines else [])
                     @ (if s2 = Some i then frameworks_lines else [])
                     @ (if s3 = Some i then dependency_lines else []))
                 [0..<length lns])"
proof -
  have "written_for lns i = (if s4 = Some i then section_lines else [])
                     @ [lns ! i]
                     @ (if s1 = Some i then build_file_lines else [])
                     @ (if s2 = Some i then frameworks_lines else [])
                     @ (if s3 = Some i then dependency_lines else [])"
    if i: "i < length lns" for i
  proof -
    have a: "(contains project_marker (lns ! i) \<and> (\<forall>k<i. \<not> contains project_marker (lns ! k)))
        = (s4 = Some i)"
      by (rule first_marker_iff [OF assms(4) i])
    have b: "build_files_inserted_at lns i = (s1 = Some i)"
      using plain_site_iff [OF assms(1) i] i by (simp add: build_files_inserted_at_def)
    have c: "frameworks_files_inserted_at lns i = (s2 = Some i)"
      by (rule frameworks_site_iff [OF assms(2) i])
    have d: "dependencies_inserted_at lns i = (s3 = Some i)"
      by (rule dependencies_site_iff [OF assms(3) i])
    show ?thesis
      unfolding written_for_def appended_at_def a b c d by (rule refl)
  qed
  then have "map (written_for lns) [0..<length lns] =
     map (\<lambda>i. (if s4 = Some i then section_lines else [])
                     @ [lns ! i]
                     @ (if s1 = Some i then build_file_lines else [])
                     @ (if s2 = Some i then frameworks_lines else [])
                     @ (if s3 = Some i then dependency_lines else [])) [0..<length lns]"
    by (intro map_cong) simp_all
  then show ?thesis
    unfolding patched_lines_written by (rule arg_cong)
qed

subsection \<open>Facts about the example documents\<close>

lemma minimal_no_sentinel: "\<not> contains mlx_dep_id minimal_manifest"
  by code_simp

lemma readlines_minimal: "readlines minimal_manifest = minimal_lines"
  by code_simp

lemma minimal_build_site: "plain_site build_file_marker minimal_lines (Some 0)"
  unfolding plain_site_def option.case by code_simp

lemma minimal_project_site: "plain_site project_marker minimal_lines (Some 5)"
  unfolding plain_site_def option.case by code_simp

lemma minimal_frameworks_site: "armed_site frameworks_marker files_marker minimal_lines (Some 2)"
proof -
  have "marker_lines frameworks_marker minimal_lines = [1]" by code_simp
  moreover have "first_from files_marker minimal_lines 1 = Some 2" by code_simp
  ultimately show ?thesis unfolding armed_site_def option.case by blast
qed

lemma minimal_dependencies_site:
  "armed_site native_target_marker product_type_marker minimal_lines (Some 4)"
proof -
  have "marker_lines native_target_marker minimal_lines = [3]" by code_simp
  moreover have "first_from product_type_marker minimal_lines 3 = Some 4" by code_simp
  ultimately show ?thesis unfolding armed_site_def option.case by blast
qed

lemma minimal_insertions:
  "length (filter (build_files_inserted_at minimal_lines) [0..<length minimal_lines]) = 1"
  "length (filter (frameworks_files_inserted_at minimal_lines) [0..<length minimal_lines]) = 1"
  "length (filter (dependencies_inserted_at minimal_lines) [0..<length minimal_lines]) = 1"
  "\<exists>l\<in>set minimal_lines. contains project_marker l"
  by code_simp+

lemma synthesized_lengths:
  "length build_file_lines = 3" "length frameworks_lines = 3"
  "length dependency_lines = 5" "length section_lines = 17"
  by (simp_all add: build_file_lines_def frameworks_lines_def dependency_lines_def
      section_lines_def)

lemma no_frameworks_facts:
  "\<not> contains mlx_dep_id no_frameworks_manifest"
  "readlines no_frameworks_manifest = no_frameworks_lines"
  "marker_lines build_file_marker no_frameworks_lines = [0]"
  "marker_lines frameworks_marker no_frameworks_lines = []"
  "marker_lines native_target_marker no_frameworks_lines = [2]"
  "first_from product_type_marker no_frameworks_lines 2 = Some 3"
  "marker_lines project_marker no_frameworks_lines = [4]"
  by code_simp+

lemma repeated_insertions:
  "build_files_inserted_at repeated_lines 0" "build_files_inserted_at repeated_lines 6"
  "frameworks_files_inserted_at repeated_lines 2" "frameworks_files_inserted_at repeated_lines 8"
  "dependencies_inserted_at repeated_lines 4" "dependencies_inserted_at repeated_lines 10"
  by code_simp+

lemma repeated_patched:
  "patched_lines repeated_lines = patched_lines minimal_lines @ structural_pass minimal_lines"
  by code_simp

lemma frameworks_only_first:
  "\<not> contains mlx_dep_id frameworks_only_manifest"
  "concat (patched_lines (readlines frameworks_only_manifest)) =
     frameworks_only_manifest @ concat frameworks_lines"
  by code_simp+

lemma frameworks_only_second:
  "\<not> contains mlx_dep_id (frameworks_only_manifest @ concat frameworks_lines)"
  "concat (patched_lines (readlines (frameworks_only_manifest @ concat frameworks_lines))) =
     frameworks_only_manifest @ concat frameworks_lines @ concat frameworks_lines"
  by code_simp+

lemma synthesized_clean:
  assumes "x \<in> set build_file_lines \<union> set frameworks_lines \<union> set dependency_lines
             \<union> set section_lines"
  shows "x \<noteq> [] \<and> hd x \<notin> set mlx_dep_id \<and> last x \<notin> set mlx_dep_id"
proof -
  have "list_all (\<lambda>x. x \<noteq> [] \<and> hd x \<notin> set mlx_dep_id \<and> last x \<notin> set mlx_dep_id)
     (build_file_lines @ frameworks_lines @ dependency_lines @ section_lines)"
    by code_simp
  with assms show ?thesis unfolding list_all_iff by auto
qed

lemma synthesized_sums:
  "sum_list (map (count_occ mlx_dep_id) build_file_lines) = 1"
  "sum_list (map (count_occ mlx_dep_id) frameworks_lines) = 0"
  "sum_list (map (count_occ mlx_dep_id) dependency_lines) = 1"
  "sum_list (map (count_occ mlx_dep_id) section_lines) = 1"
  by code_simp+

lemma synthesized_counts:
  "count_occ mlx_dep_id (concat build_file_lines) = 1"
  "count_occ mlx_dep_id (concat frameworks_lines) = 0"
  "count_occ mlx_dep_id (concat dependency_lines) = 1"
  "count_occ mlx_dep_id (concat section_lines) = 1"
  by code_simp+

subsection \<open>Original lines are kept\<close>

lemma subseq_map_concat:
  "(\<And>x. x \<in> set xs \<Longrightarrow> subseq [f x] (g x)) \<Longrightarrow> subseq (map f xs) (concat (map g xs))"
proof (induction xs)
  case Nil
  then show ?case by simp
next
  case (Cons x xs)
  have "subseq ([f x] @ map f xs) (g x @ concat (map g xs))"
    by (rule list_emb_append_mono) (use Cons in simp_all)
  then show ?case by simp
qed

lemma subseq_single: "subseq [x] (a @ [x] @ b)"
proof -
  have "subseq ([] @ [x] @ []) (a @ [x] @ b)"
    by (intro list_emb_append_mono) simp_all
  then show ?thesis by simp
qed

lemma subseq_written_for: "subseq [lns ! i] (written_for lns i)"
  unfolding written_for_def appended_at_def by (rule subseq_single)

lemma subseq_patched_lines: "subseq lns (patched_lines lns)"
proof -
  have "subseq (map (\<lambda>i. lns ! i) [0..<length lns]) (concat (map (written_for lns) [0..<length lns]))"
    by (rule subseq_map_concat) (rule subseq_written_for)
  then show ?thesis by (simp add: patched_lines_written map_nth)
qed

lemma sum_list_indicator:
  "sum_list (map (\<lambda>i. if P i then c else 0) xs) = c * length (filter P xs)" for c :: nat
  by (induction xs) simp_all

lemma length_filter_first:
  "length (filter (\<lambda>i. P i \<and> (\<forall>k<i. \<not> P k)) [0..<n]) = (if \<exists>k<n. P k then 1 else 0)"
proof (induction n)
  case 0
  then show ?case by simp
next
  case (Suc n)
  show ?case
  proof (cases "\<exists>k<n. P k")
    case True
    with Suc show ?thesis by (auto simp: less_Suc_eq)
  next
    case False
    with Suc show ?thesis by (auto simp: less_Suc_eq)
  qed
qed

lemma length_written_for:
  "length (written_for lns i) =
     (if contains project_marker (lns ! i) \<and> (\<forall>k<i. \<not> contains project_marker (lns ! k))
      then length section_lines else 0)
     + (1 + ((if build_files_inserted_at lns i then length build_file_lines else 0)
     + ((if frameworks_files_inserted_at lns i then length frameworks_lines else 0)
     + (if dependencies_inserted_at lns i then length dependency_lines else 0))))"
  by (auto simp: written_for_def appended_at_def)

lemma ex_marker_index:
  "(\<exists>k<length lns. contains m (lns ! k)) \<longleftrightarrow> (\<exists>l\<in>set lns. contains m l)"
  by (metis in_set_conv_nth)

lemma length_patched_lines:
  "length (patched_lines lns) =
     length lns
     + length build_file_lines * length (filter (build_files_inserted_at lns) [0..<length lns])
     + length frameworks_lines * length (filter (frameworks_files_inserted_at lns) [0..<length lns])
     + length dependency_lines * length (filter (dependencies_inserted_at lns) [0..<length lns])
     + (if \<exists>l\<in>set lns. contains project_marker l then length section_lines else 0)"
proof -
  have "length (patched_lines lns) = sum_list (map (\<lambda>i. length (written_for lns i)) [0..<length lns])"
    by (simp add: patched_lines_written length_concat comp_def)
  also have "\<dots> =
       length section_lines * length (filter (\<lambda>i. contains project_marker (lns ! i) \<and>
           (\<forall>k<i. \<not> contains project_marker (lns ! k))) [0..<length lns])
     + (length lns
     + (length build_file_lines * length (filter (build_files_inserted_at lns) [0..<length lns])
     + (length frameworks_lines * length (filter (frameworks_files_inserted_at lns) [0..<length lns])
     + length dependency_lines * length (filter (dependencies_inserted_at lns) [0..<length lns]))))"
    unfolding length_written_for sum_list_addf sum_list_indicator
    by (simp add: sum_list_triv)
  finally show ?thesis
    by (simp add: length_filter_first ex_marker_index)
qed

lemma marker_lines_at_most_one:
  assumes "length (marker_lines m lns) \<le> 1"
    and "i < length lns" "contains m (lns ! i)" and "i' < length lns" "contains m (lns ! i')"
  shows "i = i'"
proof -
  have i: "i \<in> set (marker_lines m lns)" and i': "i' \<in> set (marker_lines m lns)"
    using assms(2-5) by (simp_all add: marker_lines_def)
  then obtain a where "marker_lines m lns = [a]"
    using assms(1) by (cases "marker_lines m lns") auto
  with i i' show ?thesis by simp
qed

subsection \<open>Counting the identifier in the written text\<close>

lemma prefix_append_seam:
  assumes "x \<noteq> []" and "last x \<notin> set p \<or> (b \<noteq> [] \<and> hd b \<notin> set p) \<or> b = []"
  shows "prefix p (x @ b) \<longleftrightarrow> prefix p x"
proof
  assume "prefix p x"
  then show "prefix p (x @ b)" by (rule prefix_prefix)
next
  assume pb: "prefix p (x @ b)"
  show "prefix p x"
  proof (rule ccontr)
    assume n: "\<not> prefix p x"
    from pb n obtain us where u: "p = x @ us" "prefix us b"
      unfolding prefix_append by blast
    with n have "us \<noteq> []" by auto
    note us = u(1) this u(2)
    then have "last x \<in> set p" using assms(1) by simp
    moreover from us have "b \<noteq> []" "hd b \<in> set p"
      by (auto simp: prefix_def hd_append)
    ultimately show False using assms(2) by auto
  qed
qed

lemma count_occ_append:
  assumes "p \<noteq> []"
  shows "a \<noteq> [] \<Longrightarrow> last a \<notin> set p \<or> (b \<noteq> [] \<and> hd b \<notin> set p) \<or> b = [] \<Longrightarrow>
         count_occ p (a @ b) = count_occ p a + count_occ p b"
proof (induction a rule: list_nonempty_induct)
  case (single x)
  have "prefix p ([x] @ b) \<longleftrightarrow> prefix p [x]"
    using single by (intro prefix_append_seam) simp_all
  then show ?case using assms by simp
next
  case (cons x xs)
  have "prefix p ((x # xs) @ b) \<longleftrightarrow> prefix p (x # xs)"
    using cons by (intro prefix_append_seam) simp_all
  moreover have "count_occ p (xs @ b) = count_occ p xs + count_occ p b"
    using cons by simp
  ultimately show ?case by simp
qed

lemma count_occ_concat:
  assumes "p \<noteq> []"
  shows "seam_ok p xs \<Longrightarrow> count_occ p (concat xs) = sum_list (map (count_occ p) xs)"
proof (induction xs)
  case Nil
  then show ?case using assms by simp
next
  case (Cons x xs)
  then have x: "x \<noteq> []" and r: "seam_ok p xs" by simp_all
  have "last x \<notin> set p \<or> (concat xs \<noteq> [] \<and> hd (concat xs) \<notin> set p) \<or> concat xs = []"
  proof (cases xs)
    case Nil
    then show ?thesis by simp
  next
    case (Cons y ys)
    with r have "y \<noteq> []" by simp
    with Cons Cons.prems show ?thesis by auto
  qed
  from count_occ_append [OF assms x this] Cons.IH [OF r] show ?case by simp
qed

lemma count_occ_0: "p \<noteq> [] \<Longrightarrow> \<not> contains p s \<Longrightarrow> count_occ p s = 0"
  by (induction s) auto

lemma contains_line:
  assumes "x \<in> set xs" and "contains p x"
  shows "contains p (concat xs)"
proof -
  from assms(1) obtain as bs where "xs = as @ x # bs" by (auto dest: split_list)
  then have "concat xs = concat as @ x @ concat bs" by simp
  then have "sublist x (concat xs)" by (metis sublist_appendI)
  with assms(2) show ?thesis
    unfolding contains_sublist by (rule sublist_order.order_trans)
qed

lemma readlines_nonempty: "x \<in> set (readlines s) \<Longrightarrow> x \<noteq> []"
  by (induction s arbitrary: x) (auto split: if_splits list.splits)

lemma readlines_ends:
  "Suc i < length (readlines s) \<Longrightarrow> last (readlines s ! i) = nl"
proof (induction s arbitrary: i)
  case Nil
  then show ?case by simp
next
  case (Cons c s)
  show ?case
  proof (cases "c = nl")
    case True
    with Cons show ?thesis by (cases i) simp_all
  next
    case False
    show ?thesis
    proof (cases "readlines s")
      case Nil
      with False Cons.prems show ?thesis by simp
    next
      case (Cons l ls)
      then have l: "l \<noteq> []" using readlines_nonempty [of l s] by simp
      show ?thesis
      proof (cases i)
        case 0
        with Cons.prems False Cons have "Suc 0 < length (readlines s)" by simp
        from Cons.IH [OF this] Cons have "last l = nl" by simp
        with 0 False Cons l show ?thesis by simp
      next
        case (Suc i')
        with Cons.prems False Cons have "Suc (Suc i') < length (readlines s)" by simp
        from Cons.IH [OF this] Cons Suc False show ?thesis by simp
      qed
    qed
  qed
qed

lemma seam_ok_append:
  "seam_ok p xs \<Longrightarrow> seam_ok p ys \<Longrightarrow>
   xs = [] \<or> ys = [] \<or> last (last xs) \<notin> set p \<or> hd (hd ys) \<notin> set p \<Longrightarrow>
   seam_ok p (xs @ ys)"
proof (induction xs)
  case Nil
  then show ?case by simp
next
  case (Cons x xs)
  show ?case
  proof (cases xs)
    case Nil
    with Cons.prems show ?thesis by (cases ys) auto
  next
    case c: (Cons x' xs')
    with Cons.prems have "seam_ok p (xs @ ys)"
      by (intro Cons.IH) auto
    with c Cons.prems show ?thesis by simp
  qed
qed

lemma seam_ok_right_safe:
  "(\<And>x. x \<in> set xs \<Longrightarrow> x \<noteq> [] \<and> last x \<notin> set p) \<Longrightarrow> seam_ok p xs"
  by (induction xs) (auto split: list.splits)

lemma written_for_shape:
  obtains before after where "written_for lns i = before @ [lns ! i] @ after"
    and "set before \<union> set after \<subseteq>
      set build_file_lines \<union> set frameworks_lines \<union> set dependency_lines \<union> set section_lines"
proof
  show "written_for lns i =
      (if contains project_marker (lns ! i) \<and> (\<forall>k<i. \<not> contains project_marker (lns ! k))
       then section_lines else []) @ [lns ! i] @
      ((if build_files_inserted_at lns i then build_file_lines else [])
       @ (if frameworks_files_inserted_at lns i then frameworks_lines else [])
       @ (if dependencies_inserted_at lns i then dependency_lines else []))"
    by (simp add: written_for_def appended_at_def)
  show "set (if contains project_marker (lns ! i) \<and> (\<forall>k<i. \<not> contains project_marker (lns ! k))
       then section_lines else []) \<union>
      set ((if build_files_inserted_at lns i then build_file_lines else [])
       @ (if frameworks_files_inserted_at lns i then frameworks_lines else [])
       @ (if dependencies_inserted_at lns i then dependency_lines else []))
     \<subseteq> set build_file_lines \<union> set frameworks_lines \<union> set dependency_lines \<union> set section_lines"
    by auto
qed

lemma seam_ok_written_for:
  assumes "lns ! i \<noteq> []"
  shows "seam_ok mlx_dep_id (written_for lns i)"
proof -
  obtain before after where w: "written_for lns i = before @ [lns ! i] @ after"
    and s: "set before \<union> set after \<subseteq>
      set build_file_lines \<union> set frameworks_lines \<union> set dependency_lines \<union> set section_lines"
    by (rule written_for_shape)
  have cb: "x \<noteq> [] \<and> hd x \<notin> set mlx_dep_id \<and> last x \<notin> set mlx_dep_id"
    if "x \<in> set before \<union> set after" for x
    using that s by (intro synthesized_clean) blast
  have a: "seam_ok mlx_dep_id after" and b: "seam_ok mlx_dep_id before"
    using cb by (auto intro!: seam_ok_right_safe)
  have la: "seam_ok mlx_dep_id ([lns ! i] @ after)"
  proof (cases after)
    case Nil
    with assms show ?thesis by simp
  next
    case (Cons y ys)
    then have "y \<noteq> [] \<and> hd y \<notin> set mlx_dep_id" using cb [of y] by simp
    with Cons a assms show ?thesis by simp
  qed
  have "seam_ok mlx_dep_id (before @ [lns ! i] @ after)"
  proof (rule seam_ok_append [OF b la])
    show "before = [] \<or> [lns ! i] @ after = [] \<or> last (last before) \<notin> set mlx_dep_id \<or>
        hd (hd ([lns ! i] @ after)) \<notin> set mlx_dep_id"
      using cb [of "last before"] by (cases "before = []") auto
  qed
  with w show ?thesis by simp
qed

lemma right_safe_written_for:
  assumes "lns ! i \<noteq> []" and "last (lns ! i) \<notin> set mlx_dep_id"
    and "x \<in> set (written_for lns i)"
  shows "x \<noteq> [] \<and> last x \<notin> set mlx_dep_id"
proof -
  obtain before after where w: "written_for lns i = before @ [lns ! i] @ after"
    and s: "set before \<union> set after \<subseteq>
      set build_file_lines \<union> set frameworks_lines \<union> set dependency_lines \<union> set section_lines"
    by (rule written_for_shape)
  from assms(3) w consider "x = lns ! i" | "x \<in> set before \<union> set after" by auto
  then show ?thesis
  proof cases
    case 1
    with assms show ?thesis by simp
  next
    case 2
    with s synthesized_clean [of x] show ?thesis by blast
  qed
qed

lemma seam_ok_patched_lines:
  assumes ne: "\<And>x. x \<in> set lns \<Longrightarrow> x \<noteq> []"
    and ends: "\<And>i. Suc i < length lns \<Longrightarrow> last (lns ! i) \<notin> set mlx_dep_id"
  shows "seam_ok mlx_dep_id (patched_lines lns)"
proof (cases "length lns")
  case 0
  then show ?thesis by (simp add: patched_lines_written)
next
  case (Suc n)
  define front where "front = concat (map (written_for lns) [0..<n])"
  have p: "patched_lines lns = front @ written_for lns n"
    by (simp add: patched_lines_written Suc front_def)
  have safe: "x \<noteq> [] \<and> last x \<notin> set mlx_dep_id" if "x \<in> set front" for x
  proof -
    from that obtain i where i: "i < n" "x \<in> set (written_for lns i)"
      by (auto simp: front_def)
    from i(1) Suc have "lns ! i \<in> set lns" and si: "Suc i < length lns" by simp_all
    then have "lns ! i \<noteq> []" by (intro ne)
    moreover have "last (lns ! i) \<notin> set mlx_dep_id" using si by (rule ends)
    ultimately have "lns ! i \<noteq> []" "last (lns ! i) \<notin> set mlx_dep_id" by simp_all
    with i show ?thesis by (intro right_safe_written_for [of lns i])
  qed
  have f: "seam_ok mlx_dep_id front"
    by (rule seam_ok_right_safe) (rule safe)
  have l: "seam_ok mlx_dep_id (written_for lns n)"
    using Suc by (intro seam_ok_written_for ne) simp
  have "seam_ok mlx_dep_id (front @ written_for lns n)"
  proof (rule seam_ok_append [OF f l])
    show "front = [] \<or> written_for lns n = [] \<or> last (last front) \<notin> set mlx_dep_id \<or>
        hd (hd (written_for lns n)) \<notin> set mlx_dep_id"
      using safe [of "last front"] by (cases "front = []") auto
  qed
  with p show ?thesis by simp
qed

lemma sum_list_map_if:
  "sum_list (map f (if c then xs else [])) = (if c then sum_list (map f xs) else 0)"
  for f :: "'a \<Rightarrow> nat"
  by simp

lemma count_written_for:
  "sum_list (map (count_occ mlx_dep_id) (written_for lns i)) =
     (if contains project_marker (lns ! i) \<and> (\<forall>k<i. \<not> contains project_marker (lns ! k))
      then 1 else 0)
     + (count_occ mlx_dep_id (lns ! i) + ((if build_files_inserted_at lns i then 1 else 0)
     + (if dependencies_inserted_at lns i then 1 else 0)))"
  unfolding written_for_def appended_at_def map_append sum_list_append sum_list_map_if
    synthesized_sums
  by simp

lemma sum_list_map_concat_map:
  "sum_list (map f (concat (map g xs))) = sum_list (map (\<lambda>x. sum_list (map f (g x))) xs)"
  for f :: "'a \<Rightarrow> nat"
  by (induction xs) simp_all

lemma sum_list_map_nth:
  "sum_list (map (\<lambda>i. f (lns ! i)) [0..<length lns]) = sum_list (map f lns)"
proof -
  have "map (\<lambda>i. f (lns ! i)) [0..<length lns] = map f (map (\<lambda>i. lns ! i) [0..<length lns])"
    by simp
  also have "\<dots> = map f lns" by (simp only: map_nth)
  finally show ?thesis by simp
qed

lemma sum_list_add4:
  "sum_list (map (\<lambda>i. a i + (b i + (c i + d i))) xs) =
     sum_list (map a xs) + (sum_list (map b xs) + (sum_list (map c xs) + sum_list (map d xs)))"
  for a :: "'a \<Rightarrow> nat"
  by (induction xs) simp_all

lemma sum_count_patched_lines:
  "sum_list (map (count_occ mlx_dep_id) (patched_lines lns)) =
     sum_list (map (count_occ mlx_dep_id) lns)
     + length (filter (build_files_inserted_at lns) [0..<length lns])
     + length (filter (dependencies_inserted_at lns) [0..<length lns])
     + (if \<exists>l\<in>set lns. contains project_marker l then 1 else 0)"
proof -
  have "sum_list (map (count_occ mlx_dep_id) (patched_lines lns)) =
      sum_list (map (\<lambda>i. sum_list (map (count_occ mlx_dep_id) (written_for lns i)))
        [0..<length lns])"
    unfolding patched_lines_written by (rule sum_list_map_concat_map)
  also have "\<dots> =
       sum_list (map (\<lambda>i. if contains project_marker (lns ! i) \<and>
           (\<forall>k<i. \<not> contains project_marker (lns ! k)) then 1 else 0) [0..<length lns])
     + (sum_list (map (\<lambda>i. count_occ mlx_dep_id (lns ! i)) [0..<length lns])
     + (sum_list (map (\<lambda>i. if build_files_inserted_at lns i then 1 else 0) [0..<length lns])
     + sum_list (map (\<lambda>i. if dependencies_inserted_at lns i then 1 else 0) [0..<length lns])))"
    unfolding count_written_for by (rule sum_list_add4)
  also have "\<dots> =
       (if \<exists>l\<in>set lns. contains project_marker l then 1 else 0)
     + (sum_list (map (count_occ mlx_dep_id) lns)
     + (length (filter (build_files_inserted_at lns) [0..<length lns])
     + length (filter (dependencies_inserted_at lns) [0..<length lns])))"
    unfolding sum_list_indicator sum_list_map_nth length_filter_first ex_marker_index
    by simp
  finally show ?thesis by simp
qed

lemma length_filter_site:
  "length (filter (\<lambda>i. a = i) [0..<n]) = (if a < n then 1 else 0)"
  by (induction n) auto

lemma count_occ_patched_lines:
  assumes "\<not> contains mlx_dep_id doc" and "readlines doc = lns"
  shows "count_occ mlx_dep_id (concat (patched_lines lns)) =
     length (filter (build_files_inserted_at lns) [0..<length lns])
     + length (filter (dependencies_inserted_at lns) [0..<length lns])
     + (if \<exists>l\<in>set lns. contains project_marker l then 1 else 0)"
proof -
  have p: "mlx_dep_id \<noteq> []" by (simp add: mlx_dep_id_def)
  have nlp: "nl \<notin> set mlx_dep_id" by (simp add: mlx_dep_id_def nl_def)
  have ne: "x \<noteq> []" if "x \<in> set lns" for x
    using that assms(2) readlines_nonempty by blast
  have ends: "last (lns ! i) \<notin> set mlx_dep_id" if "Suc i < length lns" for i
    using that assms(2) readlines_ends [of i doc] nlp by auto
  have "\<not> contains mlx_dep_id x" if "x \<in> set lns" for x
    using contains_line [OF that, of mlx_dep_id] assms concat_readlines [of doc] by auto
  then have z: "sum_list (map (count_occ mlx_dep_id) lns) = 0"
    by (simp add: count_occ_0 [OF p])
  have "count_occ mlx_dep_id (concat (patched_lines lns)) =
      sum_list (map (count_occ mlx_dep_id) (patched_lines lns))"
    by (rule count_occ_concat [OF p]) (rule seam_ok_patched_lines [OF ne ends])
  then show ?thesis by (simp add: sum_count_patched_lines z)
qed

subsection \<open>The second run\<close>

lemma count_occ_contains: "p \<noteq> [] \<Longrightarrow> 0 < count_occ p s \<Longrightarrow> contains p s"
  using count_occ_0 [of p s] by auto

lemma filter_nonempty: "i < n \<Longrightarrow> P i \<Longrightarrow> 0 < length (filter P [0..<n])"
  by (simp add: filter_empty_conv) auto

lemma sentinel_written:
  assumes "\<not> contains mlx_dep_id doc" and "readlines doc = lns"
    and "(\<exists>l\<in>set lns. contains build_file_marker l) \<or> (\<exists>i. dependencies_inserted_at lns i) \<or>
         (\<exists>l\<in>set lns. contains project_marker l)"
  shows "contains mlx_dep_id (concat (patched_lines lns))"
proof -
  have p: "mlx_dep_id \<noteq> []" by (simp add: mlx_dep_id_def)
  from assms(3) consider
      (b) i where "i < length lns" "contains build_file_marker (lns ! i)"
    | (d) i where "dependencies_inserted_at lns i"
    | (s) "\<exists>l\<in>set lns. contains project_marker l"
    unfolding ex_marker_index [symmetric] by blast
  then have "0 < count_occ mlx_dep_id (concat (patched_lines lns))"
  proof cases
    case b
    then have "build_files_inserted_at lns i" by (simp add: build_files_inserted_at_def)
    with b(1) have "0 < length (filter (build_files_inserted_at lns) [0..<length lns])"
      by (rule filter_nonempty)
    then show ?thesis unfolding count_occ_patched_lines [OF assms(1,2)] by simp
  next
    case d
    then have "i < length lns" by (simp add: dependencies_inserted_at_def)
    from this d have "0 < length (filter (dependencies_inserted_at lns) [0..<length lns])"
      by (rule filter_nonempty)
    then show ?thesis unfolding count_occ_patched_lines [OF assms(1,2)] by simp
  next
    case s
    then show ?thesis unfolding count_occ_patched_lines [OF assms(1,2)] by simp
  qed
  with p show ?thesis by (rule count_occ_contains)
qed

lemma nothing_inserted:
  assumes "\<not> (\<exists>l\<in>set lns. contains build_file_marker l)"
    and "\<not> (\<exists>i. dependencies_inserted_at lns i)"
    and "\<not> (\<exists>l\<in>set lns. contains project_marker l)"
    and "\<forall>i. \<not> frameworks_files_inserted_at lns i"
  shows "patched_lines lns = lns"
proof -
  have "written_for lns i = [lns ! i]" if "i < length lns" for i
    using that assms unfolding ex_marker_index [symmetric]
    by (auto simp: written_for_def appended_at_def build_files_inserted_at_def)
  then have "map (written_for lns) [0..<length lns] = map (\<lambda>i. [lns ! i]) [0..<length lns]"
    by (intro map_cong) simp_all
  then have "patched_lines lns = concat (map (\<lambda>i. [lns ! i]) [0..<length lns])"
    unfolding patched_lines_written by (rule arg_cong)
  also have "\<dots> = map (\<lambda>i. lns ! i) [0..<length lns]"
    by (induction "[0..<length lns]") (simp_all add: concat_map_singleton)
  also have "\<dots> = lns" by (rule map_nth)
  finally show ?thesis .
qed

subsection \<open>Where the second run changes nothing\<close>

text \<open>
  A second run leaves the file as the first run left it when the document already holds
  the identifier, or the first run writes it (a line holds the build-file marker or the
  project marker, or the dependency sub-block is inserted), or the first run inserts
  nothing into the frameworks phase.
\<close>

lemma second_run_changes_nothing:
  assumes "files w path = Some doc" and "readlines doc = lns"
    and "contains mlx_dep_id doc \<or>
         (\<exists>l\<in>set lns. contains build_file_marker l) \<or>
         (\<exists>i. dependencies_inserted_at lns i) \<or>
         (\<exists>l\<in>set lns. contains project_marker l) \<or>
         (\<forall>i. \<not> frameworks_files_inserted_at lns i)"
    and "main w = Inr r"
  shows "map_sum id files_after (main (w\<lparr>files := files_after r\<rparr>)) = Inr (files_after r)"
proof (cases "contains mlx_dep_id doc")
  case True
  with assms(1) have "main w = Inr \<lparr>files_after = files w, writes = [],
      stdout = [''Project already patched.''], exit_code = 0\<rparr>"
    by (simp add: main_def concat_readlines)
  with assms(4) have "files_after r = files w" by auto
  then have "w\<lparr>files := files_after r\<rparr> = w" by simp
  with assms(4) show ?thesis by simp
next
  case False
  define d1 where "d1 = concat (patched_lines lns)"
  from main_patched [OF assms(1) False] assms(2,4)
  have r: "files_after r = (files w)(path \<mapsto> d1)" by (auto simp: d1_def)
  then have f: "files (w\<lparr>files := files_after r\<rparr>) path = Some d1" by simp
  show ?thesis
  proof (cases "contains mlx_dep_id d1")
    case True
    with f have "main (w\<lparr>files := files_after r\<rparr>) =
        Inr \<lparr>files_after = files_after r, writes = [],
             stdout = [''Project already patched.''], exit_code = 0\<rparr>"
      by (simp add: main_def concat_readlines)
    then show ?thesis by simp
  next
    case n: False
    with sentinel_written [OF False assms(2)] have none:
      "\<not> (\<exists>l\<in>set lns. contains build_file_marker l)"
      "\<not> (\<exists>i. dependencies_inserted_at lns i)"
      "\<not> (\<exists>l\<in>set lns. contains project_marker l)"
      unfolding d1_def by blast+
    with assms(3) False have "\<forall>i. \<not> frameworks_files_inserted_at lns i" by blast
    from nothing_inserted [OF none this] have same: "patched_lines lns = lns" .
    have cl: "concat lns = doc" using assms(2) concat_readlines [of doc] by simp
    with same have d: "d1 = doc" by (simp add: d1_def)
    from main_patched [OF f n] show ?thesis
      unfolding d assms(2) same cl using r d by simp
  qed
qed

subsection \<open>Where the dependency sub-block goes\<close>

text \<open>
  The first loop writes, for every line, the line and then the lines of the insertions
  that run in its iteration; the dependency sub-block is inserted after a line only if
  that line holds the product type marker and a line with the native target marker
  stands at or before it with no product type line in between.
\<close>

lemma dependencies_after_armed_product_type:
  "structural_pass lns =
     concat (map (\<lambda>i. [lns ! i]
                     @ (if build_files_inserted_at lns i then build_file_lines else [])
                     @ (if frameworks_files_inserted_at lns i then frameworks_lines else [])
                     @ (if dependencies_inserted_at lns i then dependency_lines else []))
                 [0..<length lns]) \<and>
   (dependencies_inserted_at lns i \<longrightarrow>
      i < length lns \<and> contains product_type_marker (lns ! i) \<and>
      (\<exists>j\<le>i. contains native_target_marker (lns ! j) \<and>
         (\<forall>k. j \<le> k \<and> k < i \<longrightarrow> \<not> contains product_type_marker (lns ! k))))"
proof
  have "appended_at lns = (\<lambda>i. [lns ! i]
                     @ (if build_files_inserted_at lns i then build_file_lines else [])
                     @ (if frameworks_files_inserted_at lns i then frameworks_lines else [])
                     @ (if dependencies_inserted_at lns i then dependency_lines else []))"
    by (rule ext) (simp add: appended_at_def)
  then show "structural_pass lns =
     concat (map (\<lambda>i. [lns ! i]
                     @ (if build_files_inserted_at lns i then build_file_lines else [])
                     @ (if frameworks_files_inserted_at lns i then frameworks_lines else [])
                     @ (if dependencies_inserted_at lns i then dependency_lines else []))
                 [0..<length lns])"
    using structural_pass_appended [of lns] by simp
  show "dependencies_inserted_at lns i \<longrightarrow>
      i < length lns \<and> contains product_type_marker (lns ! i) \<and>
      (\<exists>j\<le>i. contains native_target_marker (lns ! j) \<and>
         (\<forall>k. j \<le> k \<and> k < i \<longrightarrow> \<not> contains product_type_marker (lns ! k)))"
    unfolding dependencies_inserted_at_markers by (rule impI)
qed

text \<open>
  When every block that a native target marker opens holds a product type line, the
  sub-block is inserted inside such a block.
\<close>

lemma dependencies_inserted_in_block:
  assumes "dependencies_inserted_at lns i"
    and "\<And>j. j \<le> i \<Longrightarrow> contains native_target_marker (lns ! j) \<Longrightarrow>
           \<exists>k\<ge>j. k < j + block_length 0 (drop j lns) \<and> contains product_type_marker (lns ! k)"
  shows "in_native_target_block lns i"
proof -
  from assms(1) obtain j where j: "j \<le> i" "contains native_target_marker (lns ! j)"
    and none: "\<forall>k. j \<le> k \<and> k < i \<longrightarrow> \<not> contains product_type_marker (lns ! k)"
    unfolding dependencies_inserted_at_markers by blast
  from assms(2) [OF j] obtain k where k: "j \<le> k" "k < j + block_length 0 (drop j lns)"
    "contains product_type_marker (lns ! k)" by blast
  with none have "i \<le> k" by (meson not_less)
  with k(2) have "i < j + block_length 0 (drop j lns)" by simp
  with j have "\<exists>j\<in>set [0..<Suc i]. contains native_target_marker (lns ! j) \<and>
      i < j + block_length 0 (drop j lns)"
    by (intro bexI [of _ j]) auto
  then show ?thesis unfolding in_native_target_block_def list_ex_iff .
qed

subsection \<open>Markers that are not there\<close>

text \<open>
  A marker that is on no line, or a begin marker that no list line or product type line
  follows (\<open>None\<close>), leaves the run without an error and without lines of its insertion;
  a marker that is on one line gets its insertion.
\<close>

lemma missing_marker_skipped:
  assumes "files w path = Some doc" and "\<not> contains mlx_dep_id doc"
    and "readlines doc = lns"
    and "plain_site build_file_marker lns s1"
    and "armed_site frameworks_marker files_marker lns s2"
    and "armed_site native_target_marker product_type_marker lns s3"
    and "plain_site project_marker lns s4"
  shows "main w = Inr \<lparr>files_after = (files w)(path \<mapsto> concat (patched_lines lns)),
                          writes = [(path, concat (patched_lines lns))],
                          stdout = [''Project patched successfully.''], exit_code = 0\<rparr> \<and>
         patched_lines lns =
           concat (map (\<lambda>i. (if s4 = Some i then section_lines else [])
                           @ [lns ! i]
                           @ (if s1 = Some i then build_file_lines else [])
                           @ (if s2 = Some i then frameworks_lines else [])
                           @ (if s3 = Some i then dependency_lines else []))
                       [0..<length lns])"
  using main_patched [OF assms(1,2)] patched_lines_sites [OF assms(4-7)]
  unfolding assms(3) by simp

section \<open>The claims\<close>

text \<open>
  C1, as stated, fails: in the patched minimal manifest the identifier stands three
  times, not four. The reference lines of the frameworks phase name the build-file
  identifiers and do not hold it.
\<close>

theorem sentinel_count_counterexample:
  "\<not> contains mlx_dep_id minimal_manifest \<and>
   readlines minimal_manifest = minimal_lines \<and>
   plain_site build_file_marker minimal_lines (Some 0) \<and>
   armed_site frameworks_marker files_marker minimal_lines (Some 2) \<and>
   armed_site native_target_marker product_type_marker minimal_lines (Some 4) \<and>
   plain_site project_marker minimal_lines (Some 5) \<and>
   main (world_of minimal_manifest) =
     Inr \<lparr>files_after = [path \<mapsto> concat (patched_lines minimal_lines)],
          writes = [(path, concat (patched_lines minimal_lines))],
          stdout = [''Project patched successfully.''], exit_code = 0\<rparr> \<and>
   count_occ mlx_dep_id (concat (patched_lines minimal_lines)) = 3 \<and>
   count_occ mlx_dep_id (concat frameworks_lines) = 0"
proof -
  have c: "count_occ mlx_dep_id (concat (patched_lines minimal_lines)) = 3" by code_simp
  have f: "files (world_of minimal_manifest) path = Some minimal_manifest"
    by (simp add: world_of_def)
  from main_patched [OF f minimal_no_sentinel] c show ?thesis
    using minimal_no_sentinel readlines_minimal minimal_build_site minimal_frameworks_site
      minimal_dependencies_site minimal_project_site synthesized_counts
    by (simp add: world_of_def)
qed

text \<open>
  C1, amended: for a manifest without the identifier that holds each of the four markers
  once, the written document holds the identifier exactly three times: once in the
  build-file declarations, once in the dependency sub-block of the target and once in
  the new section, and not in the reference lines of the frameworks phase.
\<close>

theorem sentinel_count:
  assumes "files w path = Some doc" and "\<not> contains mlx_dep_id doc"
    and "readlines doc = lns"
    and "plain_site build_file_marker lns (Some i1)"
    and "armed_site frameworks_marker files_marker lns (Some i2)"
    and "armed_site native_target_marker product_type_marker lns (Some i3)"
    and "plain_site project_marker lns (Some i4)"
  shows "main w = Inr \<lparr>files_after = (files w)(path \<mapsto> concat (patched_lines lns)),
                          writes = [(path, concat (patched_lines lns))],
                          stdout = [''Project patched successfully.''], exit_code = 0\<rparr> \<and>
         count_occ mlx_dep_id (concat (patched_lines lns)) = 3 \<and>
         count_occ mlx_dep_id (concat build_file_lines) = 1 \<and>
         count_occ mlx_dep_id (concat frameworks_lines) = 0 \<and>
         count_occ mlx_dep_id (concat dependency_lines) = 1 \<and>
         count_occ mlx_dep_id (concat section_lines) = 1"
proof -
  have b: "marker_lines build_file_marker lns = [i1]"
    and p: "marker_lines project_marker lns = [i4]"
    using assms(4,7) by (simp_all add: plain_site_def)
  have "filter (build_files_inserted_at lns) [0..<length lns] = marker_lines build_file_marker lns"
    unfolding marker_lines_def by (rule filter_cong) (simp_all add: build_files_inserted_at_def)
  with b have nb: "length (filter (build_files_inserted_at lns) [0..<length lns]) = 1" by simp
  from assms(6) obtain j where "first_from product_type_marker lns j = Some i3"
    by (auto simp: armed_site_def)
  then have i3: "i3 < length lns" by (simp add: first_from_Some_iff)
  have "filter (dependencies_inserted_at lns) [0..<length lns] =
      filter (\<lambda>i. i3 = i) [0..<length lns]"
    by (rule filter_cong) (simp_all add: dependencies_site_iff [OF assms(6)])
  with i3 have nd: "length (filter (dependencies_inserted_at lns) [0..<length lns]) = 1"
    by (simp add: length_filter_site)
  from marker_lines_single(1,2) [OF p] have "\<exists>l\<in>set lns. contains project_marker l"
    by (metis nth_mem)
  with count_occ_patched_lines [OF assms(2,3)] nb nd
  have "count_occ mlx_dep_id (concat (patched_lines lns)) = 3" by simp
  with main_patched [OF assms(1,2)] show ?thesis
    unfolding assms(3) by (simp add: synthesized_counts)
qed

theorem sentinel_count_witness:
  "files (world_of minimal_manifest) path = Some minimal_manifest \<and>
   \<not> contains mlx_dep_id minimal_manifest \<and>
   readlines minimal_manifest = minimal_lines \<and>
   plain_site build_file_marker minimal_lines (Some 0) \<and>
   armed_site frameworks_marker files_marker minimal_lines (Some 2) \<and>
   armed_site native_target_marker product_type_marker minimal_lines (Some 4) \<and>
   plain_site project_marker minimal_lines (Some 5) \<and>
   count_occ mlx_dep_id (concat (patched_lines minimal_lines)) = 3"
proof -
  have f: "files (world_of minimal_manifest) path = Some minimal_manifest"
    by (simp add: world_of_def)
  from sentinel_count [OF f minimal_no_sentinel readlines_minimal minimal_build_site
      minimal_frameworks_site minimal_dependencies_site minimal_project_site]
  show ?thesis
    using f minimal_no_sentinel readlines_minimal minimal_build_site
      minimal_frameworks_site minimal_dependencies_site minimal_project_site
    by simp
qed

text \<open>
  C2, as stated, fails: when the marker lines come again, the build-file lines, the
  reference lines and the dependency sub-block are inserted again; only the new section
  is not.
\<close>

theorem injections_repeat_counterexample:
  "\<not> contains mlx_dep_id (concat repeated_lines) \<and>
   build_files_inserted_at repeated_lines 0 \<and> build_files_inserted_at repeated_lines 6 \<and>
   frameworks_files_inserted_at repeated_lines 2 \<and>
   frameworks_files_inserted_at repeated_lines 8 \<and>
   dependencies_inserted_at repeated_lines 4 \<and> dependencies_inserted_at repeated_lines 10 \<and>
   patched_lines repeated_lines = patched_lines minimal_lines @ structural_pass minimal_lines \<and>
   count_list (patched_lines repeated_lines) (build_file_lines ! 0) = 2"
proof -
  have "\<not> contains mlx_dep_id (concat repeated_lines)" by code_simp
  moreover have "count_list (patched_lines repeated_lines) (build_file_lines ! 0) = 2"
    by code_simp
  ultimately show ?thesis using repeated_insertions repeated_patched by simp
qed

text \<open>
  C2, amended: per run the new section is inserted at most once, whatever comes again.
  The reference lines and the dependency sub-block are inserted at most once per begin
  marker line: between two iterations that insert them stands a line with their begin
  marker, so a list line or product type line that comes again does not set them off.
  When the build-file marker is on at most one line, the build-file lines are inserted
  at most once.
\<close>

theorem injections_once_per_arming:
  "(section_inserted_at xs k \<and> section_inserted_at xs k' \<longrightarrow> k = k') \<and>
   (frameworks_files_inserted_at lns i \<and> frameworks_files_inserted_at lns i' \<and> i < i' \<longrightarrow>
      (\<exists>j. i < j \<and> j \<le> i' \<and> contains frameworks_marker (lns ! j))) \<and>
   (dependencies_inserted_at lns i \<and> dependencies_inserted_at lns i' \<and> i < i' \<longrightarrow>
      (\<exists>j. i < j \<and> j \<le> i' \<and> contains native_target_marker (lns ! j))) \<and>
   (length (marker_lines build_file_marker lns) \<le> 1 \<and>
    build_files_inserted_at lns i \<and> build_files_inserted_at lns i' \<longrightarrow> i = i')"
proof (intro conjI impI)
  assume "section_inserted_at xs k \<and> section_inserted_at xs k'"
  then have "first_from project_marker xs 0 = Some k" "first_from project_marker xs 0 = Some k'"
    by (auto simp: section_inserted_at_def first_from_Some_iff inserted_deps_before)
  then show "k = k'" by simp
next
  assume a: "frameworks_files_inserted_at lns i \<and> frameworks_files_inserted_at lns i' \<and> i < i'"
  then have fi: "contains files_marker (lns ! i)"
    by (simp add: frameworks_files_inserted_at_markers)
  from a obtain j where j: "j \<le> i'" "contains frameworks_marker (lns ! j)"
    "\<forall>k. j \<le> k \<and> k < i' \<longrightarrow> \<not> contains files_marker (lns ! k)"
    unfolding frameworks_files_inserted_at_markers by blast
  have "i < j"
  proof (rule ccontr)
    assume "\<not> i < j"
    with a j(3) have "\<not> contains files_marker (lns ! i)" by simp
    with fi show False by simp
  qed
  with j show "\<exists>j. i < j \<and> j \<le> i' \<and> contains frameworks_marker (lns ! j)" by blast
next
  assume a: "dependencies_inserted_at lns i \<and> dependencies_inserted_at lns i' \<and> i < i'"
  then have fi: "contains product_type_marker (lns ! i)"
    by (simp add: dependencies_inserted_at_markers)
  from a obtain j where j: "j \<le> i'" "contains native_target_marker (lns ! j)"
    "\<forall>k. j \<le> k \<and> k < i' \<longrightarrow> \<not> contains product_type_marker (lns ! k)"
    unfolding dependencies_inserted_at_markers by blast
  have "i < j"
  proof (rule ccontr)
    assume "\<not> i < j"
    with a j(3) have "\<not> contains product_type_marker (lns ! i)" by simp
    with fi show False by simp
  qed
  with j show "\<exists>j. i < j \<and> j \<le> i' \<and> contains native_target_marker (lns ! j)" by blast
next
  assume "length (marker_lines build_file_marker lns) \<le> 1 \<and>
    build_files_inserted_at lns i \<and> build_files_inserted_at lns i'"
  then show "i = i'"
    using marker_lines_at_most_one [of build_file_marker lns i i']
    by (simp add: build_files_inserted_at_def)
qed

theorem injections_once_per_arming_witness:
  "section_inserted_at two_project_markers 1 \<and>
   frameworks_files_inserted_at repeated_lines 2 \<and>
   frameworks_files_inserted_at repeated_lines 8 \<and>
   (\<exists>j. 2 < j \<and> j \<le> 8 \<and> contains frameworks_marker (repeated_lines ! j)) \<and>
   dependencies_inserted_at repeated_lines 4 \<and>
   dependencies_inserted_at repeated_lines 10 \<and>
   (\<exists>j. 4 < j \<and> j \<le> 10 \<and> contains native_target_marker (repeated_lines ! j)) \<and>
   length (marker_lines build_file_marker minimal_lines) \<le> 1 \<and>
   build_files_inserted_at minimal_lines 0"
proof -
  have s: "section_inserted_at two_project_markers 1" by code_simp
  have b: "length (marker_lines build_file_marker minimal_lines) \<le> 1"
    "build_files_inserted_at minimal_lines 0" by code_simp+
  from injections_once_per_arming [of two_project_markers 1 1 repeated_lines 2 8]
    injections_once_per_arming [of two_project_markers 1 1 repeated_lines 4 10]
    injections_once_per_arming [of two_project_markers 1 1 minimal_lines 0 0]
    s b repeated_insertions
  show ?thesis by simp
qed

text \<open>
  C3: applying the script to its own output should change nothing; the guard is there
  for that. The reference lines of the frameworks phase do not hold the identifier the
  guard looks for, so on a document in which only that insertion runs the second run
  does not see the first: it inserts the three reference lines again.
\<close>

theorem second_run_patches_again:
  "main (world_of frameworks_only_manifest) =
     Inr \<lparr>files_after = [path \<mapsto> frameworks_only_manifest @ concat frameworks_lines],
          writes = [(path, frameworks_only_manifest @ concat frameworks_lines)],
          stdout = [''Project patched successfully.''], exit_code = 0\<rparr> \<and>
   main (world_of (frameworks_only_manifest @ concat frameworks_lines)) =
     Inr \<lparr>files_after =
            [path \<mapsto> frameworks_only_manifest @ concat frameworks_lines @ concat frameworks_lines],
          writes =
            [(path, frameworks_only_manifest @ concat frameworks_lines @ concat frameworks_lines)],
          stdout = [''Project patched successfully.''], exit_code = 0\<rparr> \<and>
   frameworks_only_manifest @ concat frameworks_lines @ concat frameworks_lines \<noteq>
     frameworks_only_manifest @ concat frameworks_lines"
proof -
  have f: "files (world_of d) path = Some d" for d by (simp add: world_of_def)
  have "concat frameworks_lines \<noteq> []" by (simp add: frameworks_lines_def)
  then show ?thesis
    using main_patched [OF f frameworks_only_first(1)]
      main_patched [OF f frameworks_only_second(1)]
    unfolding frameworks_only_first(2) frameworks_only_second(2)
    by (simp add: world_of_def)
qed

text \<open>
  C4: when the content holds the first product-dependency identifier, the script writes
  nothing, leaves every file as it was, prints the already-patched line and exits with 0.
\<close>

theorem already_patched_no_write:
  assumes "files w path = Some doc" and "contains mlx_dep_id doc"
  shows "main w = Inr \<lparr>files_after = files w, writes = [],
                          stdout = [''Project already patched.''], exit_code = 0\<rparr>"
  using assms by (simp add: main_def concat_readlines)

theorem already_patched_no_write_witness:
  "contains mlx_dep_id ([tab] @ mlx_dep_id @ '' /* MLX */,'' @ [nl]) \<and>
   main \<lparr>files = [path \<mapsto> [tab] @ mlx_dep_id @ '' /* MLX */,'' @ [nl]], argv = [],
         environ = Map.empty\<rparr>
     = Inr \<lparr>files_after = [path \<mapsto> [tab] @ mlx_dep_id @ '' /* MLX */,'' @ [nl]], writes = [],
             stdout = [''Project already patched.''], exit_code = 0\<rparr>"
proof -
  have c: "contains mlx_dep_id ([tab] @ mlx_dep_id @ '' /* MLX */,'' @ [nl])"
    by (simp add: mlx_dep_id_def tab_def)
  show ?thesis
    using c already_patched_no_write
      [of "\<lparr>files = [path \<mapsto> [tab] @ mlx_dep_id @ '' /* MLX */,'' @ [nl]], argv = [],
            environ = Map.empty\<rparr>"
          "[tab] @ mlx_dep_id @ '' /* MLX */,'' @ [nl]"]
    by simp
qed



text \<open>
  C6: the dependency sub-block should only go after a product type line inside the
  native target block. The script never looks for the closing delimiter of that block:
  when the block has no product type line, the flag stays set and the sub-block goes
  after the product type line of a later block.
\<close>

theorem dependencies_inserted_outside_block:
  "dependencies_inserted_at other_target_lines 4 \<and>
   \<not> in_native_target_block other_target_lines 4 \<and>
   structural_pass other_target_lines =
     take 5 other_target_lines @ dependency_lines @ drop 5 other_target_lines"
  by code_simp



text \<open>
  C8: an insertion whose marker line is missing should contribute no lines. In this
  manifest the native target block has no product type line, while the other three
  markers are there, each once. The script still inserts the dependency sub-block:
  after the product type line of the later target.
\<close>

theorem absent_product_type_line_still_inserts:
  "\<not> contains mlx_dep_id (concat stray_product_type_lines) \<and>
   readlines (concat stray_product_type_lines) = stray_product_type_lines \<and>
   plain_site build_file_marker stray_product_type_lines (Some 0) \<and>
   armed_site frameworks_marker files_marker stray_product_type_lines (Some 2) \<and>
   plain_site project_marker stray_product_type_lines (Some 11) \<and>
   marker_lines native_target_marker stray_product_type_lines = [5] \<and>
   block_length 0 (drop 5 stray_product_type_lines) = 3 \<and>
   \<not> list_ex (\<lambda>k. contains product_type_marker (stray_product_type_lines ! k)) [5..<5 + 3] \<and>
   dependencies_inserted_at stray_product_type_lines 9 \<and>
   \<not> in_native_target_block stray_product_type_lines 9 \<and>
   main (world_of (concat stray_product_type_lines)) =
     Inr \<lparr>files_after = [path \<mapsto> concat (patched_lines stray_product_type_lines)],
          writes = [(path, concat (patched_lines stray_product_type_lines))],
          stdout = [''Project patched successfully.''], exit_code = 0\<rparr> \<and>
   patched_lines stray_product_type_lines =
     take 1 stray_product_type_lines @ build_file_lines @
     take 2 (drop 1 stray_product_type_lines) @ frameworks_lines @
     take 7 (drop 3 stray_product_type_lines) @ dependency_lines @
     take 1 (drop 10 stray_product_type_lines) @ section_lines @
     drop 11 stray_product_type_lines"
proof -
  have n: "\<not> contains mlx_dep_id (concat stray_product_type_lines)"
    and r: "readlines (concat stray_product_type_lines) = stray_product_type_lines"
    by code_simp+
  have b: "marker_lines build_file_marker stray_product_type_lines = [0]"
    and p: "marker_lines project_marker stray_product_type_lines = [11]"
    and f: "marker_lines frameworks_marker stray_product_type_lines = [1]"
      "first_from files_marker stray_product_type_lines 1 = Some 2"
    and t: "marker_lines native_target_marker stray_product_type_lines = [5]"
      "block_length 0 (drop 5 stray_product_type_lines) = 3"
      "\<not> list_ex (\<lambda>k. contains product_type_marker (stray_product_type_lines ! k)) [5..<5 + 3]"
    and d: "dependencies_inserted_at stray_product_type_lines 9"
      "\<not> in_native_target_block stray_product_type_lines 9"
    by code_simp+
  have o: "patched_lines stray_product_type_lines =
     take 1 stray_product_type_lines @ build_file_lines @
     take 2 (drop 1 stray_product_type_lines) @ frameworks_lines @
     take 7 (drop 3 stray_product_type_lines) @ dependency_lines @
     take 1 (drop 10 stray_product_type_lines) @ section_lines @
     drop 11 stray_product_type_lines"
    by code_simp
  have w: "files (world_of (concat stray_product_type_lines)) path =
      Some (concat stray_product_type_lines)"
    by (simp add: world_of_def)
  have s: "plain_site build_file_marker stray_product_type_lines (Some 0)"
    "plain_site project_marker stray_product_type_lines (Some 11)"
    by (simp_all add: plain_site_def b p)
  have a: "armed_site frameworks_marker files_marker stray_product_type_lines (Some 2)"
    unfolding armed_site_def option.case using f by blast
  from main_patched [OF w n] have
    "main (world_of (concat stray_product_type_lines)) =
     Inr \<lparr>files_after = [path \<mapsto> concat (patched_lines stray_product_type_lines)],
          writes = [(path, concat (patched_lines stray_product_type_lines))],
          stdout = [''Project patched successfully.''], exit_code = 0\<rparr>"
    unfolding r by (simp add: world_of_def)
  with n r s a t d o show ?thesis by simp
qed

text \<open>
  C9: when the guard does not trip, the list of lines written holds the original lines
  in their order, and its length is the number of original lines plus the number of
  lines each insertion appends, for every iteration in which it runs. (The lines are
  the elements of \<^verbatim>\<open>final_lines\<close>; the last element of the new section ends with two
  newlines.)
\<close>

theorem insertion_only:
  assumes "files w path = Some doc" and "\<not> contains mlx_dep_id doc"
    and "readlines doc = lns"
  shows "main w = Inr \<lparr>files_after = (files w)(path \<mapsto> concat (patched_lines lns)),
                          writes = [(path, concat (patched_lines lns))],
                          stdout = [''Project patched successfully.''], exit_code = 0\<rparr> \<and>
         subseq lns (patched_lines lns) \<and>
         length (patched_lines lns) =
           length lns
           + length build_file_lines
               * length (filter (build_files_inserted_at lns) [0..<length lns])
           + length frameworks_lines
               * length (filter (frameworks_files_inserted_at lns) [0..<length lns])
           + length dependency_lines
               * length (filter (dependencies_inserted_at lns) [0..<length lns])
           + (if \<exists>l\<in>set lns. contains project_marker l then length section_lines else 0)"
  using main_patched [OF assms(1,2)] subseq_patched_lines [of lns] length_patched_lines [of lns]
  unfolding assms(3) by simp

theorem insertion_only_witness:
  "files (world_of minimal_manifest) path = Some minimal_manifest \<and>
   \<not> contains mlx_dep_id minimal_manifest \<and>
   readlines minimal_manifest = minimal_lines \<and>
   main (world_of minimal_manifest) =
     Inr \<lparr>files_after = [path \<mapsto> concat (patched_lines minimal_lines)],
          writes = [(path, concat (patched_lines minimal_lines))],
          stdout = [''Project patched successfully.''], exit_code = 0\<rparr> \<and>
   subseq minimal_lines (patched_lines minimal_lines) \<and>
   length (patched_lines minimal_lines) = 6 + 3 + 3 + 5 + 17"
proof -
  have f: "files (world_of minimal_manifest) path = Some minimal_manifest"
    by (simp add: world_of_def)
  have l: "length minimal_lines = 6" by (simp add: minimal_lines_def)
  from insertion_only [OF f minimal_no_sentinel readlines_minimal]
  show ?thesis
    using f minimal_no_sentinel readlines_minimal
    unfolding minimal_insertions synthesized_lengths
    by (simp add: world_of_def l minimal_insertions)
qed

text \<open>
  C10 has no theorem here. \<open>main\<close> is a function of the decoded text at the path, so two
  runs on equal text end alike by construction; what the claim says beyond that, that
  nothing else of the process (the encoding it decodes with, its input and output
  conditions) reaches the result, lies outside this model.
\<close>

end
